theory Spec2Isabelle
  imports Complex_Main
begin

section \<open>The ASCII banner of \<^verbatim>\<open>src/scripts/ascii-banner.ts\<close>\<close>

text \<open>
  The custom element \<^verbatim>\<open>AsciiBanner\<close> keeps a flat array of glyph cells, a morph record,
  the cycle scheduler's fields and the pointer. Its methods are embedded as functions on a
  record of these fields. Conventions of the embedding:
  \<^item> a JavaScript \<^verbatim>\<open>number\<close> that holds a coordinate, a velocity or a time is a
    \<^typ>\<open>real\<close>: that arithmetic of the source is read over the reals, without the rounding
    of IEEE doubles (the size of the canvas, a ceiling of a product, can so differ by one
    pixel from the size the source computes; no property below depends on it); the
    thresholds of a morph are computed in double arithmetic, every operation rounded;
    indices, rows, columns, timer handles and millisecond delays are \<^typ>\<open>nat\<close>;
  \<^item> a string is a \<^typ>\<open>string\<close>, one \<^typ>\<open>char\<close> per glyph (the art blocks are ASCII,
    where \<^verbatim>\<open>Array.from(line)\<close> and \<^verbatim>\<open>line.length\<close> count the same units);
  \<^item> an array read \<^verbatim>\<open>xs[i]\<close> is \<open>item xs i\<close>, with \<open>None\<close> for JavaScript's
    \<^verbatim>\<open>undefined\<close> out of range;
  \<^item> a method that can throw returns an \<open>outcome\<close>: \<open>Ok\<close> with the new state, or
    \<open>Threw\<close> with the error and the state the object was left in;
  \<^item> \<^verbatim>\<open>Math.random()\<close>, \<^verbatim>\<open>performance.now()\<close> and the frame timestamp are inputs.
\<close>

subsection \<open>Constants\<close>

definition FONT_SIZE :: real where "FONT_SIZE = 14"
definition LINE_HEIGHT :: real where "LINE_HEIGHT = 18"

definition GLITCH_CHARS :: string where
  "GLITCH_CHARS = ''!@#$%^&*()_+-=[]{}|;:'' @ [CHR 0x27] @ '',.<>?/~`0123456789''"

definition PAUSE_STEP :: nat where "PAUSE_STEP = 1000"
definition PAUSE_MAX :: nat where "PAUSE_MAX = 10000"
definition INITIAL_DELAY :: nat where "INITIAL_DELAY = 2000"

definition REPEL_RADIUS :: real where "REPEL_RADIUS = 80"
definition REPEL_FORCE :: real where "REPEL_FORCE = 3"
definition SPRING_K :: real where "SPRING_K = 15 / 100"
definition DAMPING :: real where "DAMPING = 7 / 10"

subsection \<open>Arrays and strings\<close>

fun item :: "'a list \<Rightarrow> nat \<Rightarrow> 'a option" where
  "item [] n = None"
| "item (x # xs) 0 = Some x"
| "item (x # xs) (Suc n) = item xs n"

text \<open>\<^verbatim>\<open>s.split(d)\<close> for a one-character separator: the empty string gives one empty
  piece, and \<open>n\<close> separators give \<open>n + 1\<close> pieces.\<close>

fun split :: "char \<Rightarrow> string \<Rightarrow> string list" where
  "split d [] = [[]]"
| "split d (x # xs) =
     (if x = d then [] # split d xs
      else (case split d xs of [] \<Rightarrow> [[x]] | l # ls \<Rightarrow> (x # l) # ls))"

definition newline :: char where "newline = CHR 0x0A"

definition blank :: char where "blank = CHR '' ''"

subsection \<open>Cells and the grid builder\<close>

record cell =
  char :: char
  row :: nat
  col :: nat
  rx :: real
  ry :: real
  px :: real
  py :: real
  vx :: real
  vy :: real

definition mkCell :: "real \<Rightarrow> nat \<Rightarrow> nat \<Rightarrow> char \<Rightarrow> cell" where
  "mkCell cw r c ch =
     \<lparr>char = ch, row = r, col = c,
      rx = real c * cw, ry = real r * LINE_HEIGHT + FONT_SIZE,
      px = real c * cw, py = real r * LINE_HEIGHT + FONT_SIZE,
      vx = 0, vy = 0\<rparr>"

text \<open>\<^verbatim>\<open>buildGrid(art)\<close>: the outer \<^verbatim>\<open>forEach\<close> runs over the lines with their index,
  the inner one over the characters of the line with theirs, and each pushes one cell.
  The first argument is \<^verbatim>\<open>this.charWidth\<close>.\<close>

definition buildGrid :: "real \<Rightarrow> string \<Rightarrow> cell list" where
  "buildGrid cw art =
     concat (map (\<lambda>(r, line). map (\<lambda>(c, ch). mkCell cw r c ch) (enumerate 0 line))
                 (enumerate 0 (split newline art)))"

text \<open>\<^verbatim>\<open>Math.max(...lines.map((l) => l.length))\<close> of \<^verbatim>\<open>initCanvas\<close>; the list of
  lines is never empty.\<close>

definition maxCols :: "string list \<Rightarrow> nat" where
  "maxCols ls = fold max (map length ls) 0"

subsection \<open>Morph state, timers and the fields of the element\<close>

text \<open>The only completion callback the source ever constructs is the arrow function of
  \<^verbatim>\<open>cycle\<close>, which captures \<^verbatim>\<open>nextIndex\<close>; the two timer callbacks are the arrow
  functions \<^verbatim>\<open>() => this.scheduleCycle()\<close> of \<^verbatim>\<open>connectedCallback\<close> and
  \<^verbatim>\<open>() => this.cycle()\<close> of \<^verbatim>\<open>scheduleCycle\<close>.\<close>

datatype callback = CycleDone nat

datatype timer_action = ArmFirst | Tick

datatype timer_status = Pending | Fired | Cleared

datatype error = TypeError

record morph_state =
  active :: bool
  startTime :: real
  duration :: real
  fromSnap :: "cell list"
  toLines :: "string list"
  thresholds :: "real list"
  onComplete :: "callback option"

text \<open>The fields of the class, followed by what the element sees of its host: the size of
  the canvas backing store, \<^verbatim>\<open>devicePixelRatio\<close>, the host's timer table (every timer
  ever requested with its callback, delay and status; the handle of a timer is its position
  in the table, counted from 1), whether a frame is requested, whether the mouse listeners
  are attached, and the glyphs drawn by the last frame.\<close>

record banner =
  cells :: "cell list"
  fontArts :: "string list"
  charWidth :: real
  morph :: morph_state
  currentTextIndex :: nat
  nextPause :: nat
  cycleTimer :: nat
  isMorphing :: bool
  mouseX :: real
  mouseY :: real
  hovering :: bool
  canvasWidth :: int
  canvasHeight :: int
  devicePixelRatio :: real
  timers :: "(timer_action \<times> nat \<times> timer_status) list"
  rafPending :: bool
  listening :: bool
  drawn :: "(char \<times> real \<times> real) list"

datatype outcome = Ok banner | Threw error banner

text \<open>The element as its field initialisers leave it, with a canvas of the default size on
  a display of device pixel ratio 1 (the ratio only scales the backing store).\<close>

definition fresh :: banner where
  "fresh =
     \<lparr>cells = [], fontArts = [], charWidth = 0,
      morph = \<lparr>active = False, startTime = 0, duration = 600, fromSnap = [],
               toLines = [], thresholds = [], onComplete = None\<rparr>,
      currentTextIndex = 0, nextPause = 2000, cycleTimer = 0, isMorphing = False,
      mouseX = - 9999, mouseY = - 9999, hovering = False,
      canvasWidth = 300, canvasHeight = 150, devicePixelRatio = 1,
      timers = [], rafPending = False, listening = False, drawn = []\<rparr>"

subsection \<open>The host's timers\<close>

definition setTimeout :: "timer_action \<Rightarrow> nat \<Rightarrow> banner \<Rightarrow> nat \<times> banner" where
  "setTimeout a d s = (Suc (length (timers s)), s\<lparr>timers := timers s @ [(a, d, Pending)]\<rparr>)"

definition isPending :: "nat \<Rightarrow> banner \<Rightarrow> bool" where
  "isPending h s =
     (case h of 0 \<Rightarrow> False
      | Suc i \<Rightarrow> (case item (timers s) i of None \<Rightarrow> False | Some (a, d, st) \<Rightarrow> st = Pending))"

definition setStatus :: "nat \<Rightarrow> timer_status \<Rightarrow> banner \<Rightarrow> banner" where
  "setStatus h st s =
     (if isPending h s
      then s\<lparr>timers := (timers s)[h - 1 := (fst (timers s ! (h - 1)),
                                             fst (snd (timers s ! (h - 1))), st)]\<rparr>
      else s)"

definition clearTimeout :: "nat \<Rightarrow> banner \<Rightarrow> banner" where
  "clearTimeout h s = setStatus h Cleared s"

subsection \<open>Double arithmetic\<close>

text \<open>
  The thresholds of a morph are the one place where a property of the element depends on
  the rounding of the arithmetic, so they are computed as the source computes them: in
  IEEE 754 binary64, every operation rounded to nearest, ties to even. A double is a real
  number \<open>m * 2 ^ q\<close> with \<open>\<bar>m\<bar> < 2 ^ 53\<close>; the range of the exponent is left unbounded (no
  overflow, no subnormal numbers: the values of the formula stay far from both).
  \<open>binade x\<close> is the exponent \<open>e\<close> with \<open>2 ^ e \<le> \<bar>x\<bar> < 2 ^ (e + 1)\<close>, the doubles of that
  binade are the multiples of \<open>2 ^ (e - 52)\<close>, and \<open>dbl x\<close> is the nearest of them.
\<close>

definition binade :: "real \<Rightarrow> int" where
  "binade x = \<lfloor>log 2 \<bar>x\<bar>\<rfloor>"

definition roundEven :: "real \<Rightarrow> int" where
  "roundEven y =
     (let f = \<lfloor>y\<rfloor>; d = y - of_int f in
      if d < 1 / 2 then f else if 1 / 2 < d then f + 1 else if even f then f else f + 1)"

definition dbl :: "real \<Rightarrow> real" where
  "dbl x =
     (if x = 0 then 0
      else of_int (roundEven (x / 2 powr of_int (binade x - 52))) * 2 powr of_int (binade x - 52))"

definition isDouble :: "real \<Rightarrow> bool" where
  "isDouble d \<longleftrightarrow> (\<exists>m q :: int. \<bar>m\<bar> < 2 ^ 53 \<and> d = of_int m * 2 powr of_int q)"

text \<open>The operators \<^verbatim>\<open>*\<close> and \<^verbatim>\<open>+\<close> on numbers, and \<^verbatim>\<open>Math.sin\<close>. ECMAScript leaves the
  accuracy of \<^verbatim>\<open>Math.sin\<close> to the implementation; it is taken here as the correctly rounded
  sine. The facts below that hold for every cell use only that it returns a double of
  \<open>[-1, 1]\<close>.\<close>

definition jsMul :: "real \<Rightarrow> real \<Rightarrow> real" where
  "jsMul a b = dbl (a * b)"

definition jsAdd :: "real \<Rightarrow> real \<Rightarrow> real" where
  "jsAdd a b = dbl (a + b)"

definition jsSin :: "real \<Rightarrow> real" where
  "jsSin x = dbl (sin x)"

text \<open>The terms of the series of the arctangent, from which \<open>pi\<close> is enclosed.\<close>

definition arctanTerm :: "real \<Rightarrow> nat \<Rightarrow> real" where
  "arctanTerm x k = 1 / real (k * 2 + 1) * x ^ (k * 2 + 1)"

subsection \<open>The methods of the element\<close>

definition initCanvas :: "string option \<Rightarrow> banner \<Rightarrow> outcome" where
  "initCanvas art s =
     (case art of
        None \<Rightarrow> Threw TypeError s
      | Some a \<Rightarrow>
          (let lines = split newline a;
               dpr = (if devicePixelRatio s = 0 then 1 else devicePixelRatio s);
               naturalW = \<lceil>real (maxCols lines) * charWidth s\<rceil>;
               naturalH = \<lceil>real (length lines) * LINE_HEIGHT\<rceil>
           in Ok (s\<lparr>canvasWidth := \<lceil>real_of_int naturalW * dpr\<rceil>,
                     canvasHeight := \<lceil>real_of_int naturalH * dpr\<rceil>,
                     cells := buildGrid (charWidth s) a\<rparr>)))"

text \<open>The threshold of the cell at \<open>(row, col)\<close>, as \<^verbatim>\<open>startMorph\<close> computes it:
  \<^verbatim>\<open>(Math.sin(cell.row * 13.37 + cell.col * 7.13) * 0.5 + 0.5) * 0.7 + 0.15\<close>. A decimal
  literal is the double nearest to it, a row or a column is a whole number (a double, below
  \<open>2 ^ 53\<close>), and \<open>thresholdWave\<close> is the arithmetic applied to the value of the sine.\<close>

definition thresholdWave :: "real \<Rightarrow> real" where
  "thresholdWave s =
     jsAdd (jsMul (jsAdd (jsMul s (dbl (1 / 2))) (dbl (1 / 2))) (dbl (7 / 10))) (dbl (15 / 100))"

definition thresholdAt :: "nat \<Rightarrow> nat \<Rightarrow> real" where
  "thresholdAt r c =
     thresholdWave
       (jsSin (jsAdd (jsMul (real r) (dbl (1337 / 100))) (jsMul (real c) (dbl (713 / 100)))))"

text \<open>\<^verbatim>\<open>startMorph(toArt, onComplete)\<close>; the third argument is the value of
  \<^verbatim>\<open>performance.now()\<close>. An undefined \<^verbatim>\<open>toArt\<close> throws at \<^verbatim>\<open>toArt.split\<close>, after the
  snapshot was stored.\<close>

definition startMorph :: "string option \<Rightarrow> callback \<Rightarrow> real \<Rightarrow> banner \<Rightarrow> outcome" where
  "startMorph toArt cb now s =
     (if active (morph s) then Ok s
      else
        (let s1 = s\<lparr>morph := (morph s)\<lparr>fromSnap := cells s\<rparr>\<rparr>
         in case toArt of
              None \<Rightarrow> Threw TypeError s1
            | Some a \<Rightarrow>
                Ok (s1\<lparr>morph := (morph s1)
                       \<lparr>toLines := split newline a,
                        thresholds := map (\<lambda>c. thresholdAt (row c) (col c)) (cells s1),
                        active := True, startTime := now, onComplete := Some cb\<rparr>\<rparr>)))"

definition scheduleCycle :: "banner \<Rightarrow> banner" where
  "scheduleCycle s =
     (let (h, s1) = setTimeout Tick (nextPause s) s
      in s1\<lparr>cycleTimer := h, nextPause := min (nextPause s1 + PAUSE_STEP) PAUSE_MAX\<rparr>)"

text \<open>\<^verbatim>\<open>cycle()\<close>. With an empty \<^verbatim>\<open>fontArts\<close> the source computes \<^verbatim>\<open>NaN\<close> for
  \<^verbatim>\<open>nextIndex\<close> and reads \<^verbatim>\<open>undefined\<close>; here \<open>n mod 0 = n\<close> and the read of the empty
  list is \<open>None\<close> all the same.\<close>

definition cycle :: "real \<Rightarrow> banner \<Rightarrow> outcome" where
  "cycle now s =
     (if isMorphing s \<or> hovering s then Ok s
      else
        (let s1 = s\<lparr>isMorphing := True\<rparr>;
             nextIndex = (currentTextIndex s1 + 1) mod length (fontArts s1)
         in startMorph (item (fontArts s1) nextIndex) (CycleDone nextIndex) now s1))"

fun runCallback :: "callback \<Rightarrow> banner \<Rightarrow> outcome" where
  "runCallback (CycleDone nextIndex) s =
     (case initCanvas (item (fontArts s) nextIndex) s of
        Threw e s' \<Rightarrow> Threw e s'
      | Ok s1 \<Rightarrow> Ok (scheduleCycle (s1\<lparr>currentTextIndex := nextIndex, isMorphing := False\<rparr>)))"

subsection \<open>One frame\<close>

text \<open>\<^verbatim>\<open>GLITCH_CHARS[Math.floor(Math.random() * GLITCH_CHARS.length)]\<close> for the random
  value \<open>r\<close>. The read is in range for every \<open>r\<close> in \<open>[0, 1)\<close>, which is all that
  \<^verbatim>\<open>Math.random()\<close> returns (lemma \<open>glitchChar_in_alphabet\<close>).\<close>

definition glitchChar :: "real \<Rightarrow> char" where
  "glitchChar r =
     (case item GLITCH_CHARS (nat \<lfloor>r * real (length GLITCH_CHARS)\<rfloor>) of
        None \<Rightarrow> blank | Some ch \<Rightarrow> ch)"

text \<open>The two glyph reads of the morph update:
  \<^verbatim>\<open>this.morph.fromSnap[i]?.char ?? ' '\<close> and
  \<^verbatim>\<open>this.morph.toLines[cell.row]?.[cell.col] ?? ' '\<close>.\<close>

definition fromChar :: "morph_state \<Rightarrow> nat \<Rightarrow> char" where
  "fromChar m i = (case item (fromSnap m) i of None \<Rightarrow> blank | Some c \<Rightarrow> char c)"

definition toChar :: "morph_state \<Rightarrow> cell \<Rightarrow> char" where
  "toChar m cell =
     (case item (toLines m) (row cell) of
        None \<Rightarrow> blank
      | Some l \<Rightarrow> (case item l (col cell) of None \<Rightarrow> blank | Some ch \<Rightarrow> ch))"

text \<open>The body of the \<^verbatim>\<open>forEach\<close> of the morph update for the cell of index \<open>i\<close>. A
  threshold read out of range is \<^verbatim>\<open>undefined\<close>, both comparisons with it are false and the
  last branch is taken.\<close>

definition morphCell :: "real \<Rightarrow> real \<Rightarrow> morph_state \<Rightarrow> nat \<Rightarrow> cell \<Rightarrow> cell" where
  "morphCell progress r m i cell =
     (case item (thresholds m) i of
        None \<Rightarrow> cell\<lparr>char := fromChar m i\<rparr>
      | Some threshold \<Rightarrow>
          if progress \<ge> threshold then cell\<lparr>char := toChar m cell\<rparr>
          else if progress > threshold * (3 / 10) then cell\<lparr>char := glitchChar r\<rparr>
          else cell\<lparr>char := fromChar m i\<rparr>)"

definition morphCells :: "real \<Rightarrow> (nat \<Rightarrow> real) \<Rightarrow> morph_state \<Rightarrow> cell list \<Rightarrow> cell list" where
  "morphCells progress rnd m cs =
     map (\<lambda>(i, c). morphCell progress (rnd i) m i c) (enumerate 0 cs)"

definition progressAt :: "real \<Rightarrow> morph_state \<Rightarrow> real" where
  "progressAt timestamp m = min ((timestamp - startTime m) / duration m) 1"

text \<open>The morph update of \<^verbatim>\<open>render\<close>; \<open>rnd i\<close> is the random value drawn for the cell of
  index \<open>i\<close> in this frame.\<close>

definition morphUpdate :: "real \<Rightarrow> (nat \<Rightarrow> real) \<Rightarrow> banner \<Rightarrow> outcome" where
  "morphUpdate timestamp rnd s =
     (if active (morph s) then
        (let progress = progressAt timestamp (morph s);
             s1 = s\<lparr>cells := morphCells progress rnd (morph s) (cells s)\<rparr>
         in if progress \<ge> 1 then
              (let s2 = s1\<lparr>morph := (morph s1)\<lparr>active := False\<rparr>\<rparr>
               in case onComplete (morph s2) of
                    None \<Rightarrow> Ok s2
                  | Some cb \<Rightarrow> runCallback cb s2)
            else Ok s1)
      else Ok s)"

text \<open>The body of the physics loop for one cell, with the pointer at \<open>(mx, my)\<close>.\<close>

definition physics :: "real \<Rightarrow> real \<Rightarrow> cell \<Rightarrow> cell" where
  "physics mx my cell =
     (let dx = rx cell - mx;
          dy = ry cell - my;
          dist = sqrt (dx * dx + dy * dy);
          c1 = (if dist < REPEL_RADIUS \<and> dist > 0 then
                  (let force = REPEL_FORCE * (1 - dist / REPEL_RADIUS)
                   in cell\<lparr>vx := vx cell + (dx / dist) * force,
                           vy := vy cell + (dy / dist) * force\<rparr>)
                else cell);
          c2 = c1\<lparr>vx := vx c1 + (rx c1 - px c1) * SPRING_K,
                  vy := vy c1 + (ry c1 - py c1) * SPRING_K\<rparr>;
          c3 = c2\<lparr>vx := vx c2 * DAMPING, vy := vy c2 * DAMPING\<rparr>
      in c3\<lparr>px := px c3 + vx c3, py := py c3 + vy c3\<rparr>)"

definition draw :: "cell list \<Rightarrow> (char \<times> real \<times> real) list" where
  "draw cs = map (\<lambda>c. (char c, px c, py c)) (filter (\<lambda>c. char c \<noteq> blank) cs)"

definition render :: "real \<Rightarrow> (nat \<Rightarrow> real) \<Rightarrow> banner \<Rightarrow> outcome" where
  "render timestamp rnd s =
     (case morphUpdate timestamp rnd s of
        Threw e s' \<Rightarrow> Threw e s'
      | Ok s1 \<Rightarrow>
          (let s2 = s1\<lparr>cells := map (physics (mouseX s1) (mouseY s1)) (cells s1)\<rparr>;
               s3 = s2\<lparr>drawn := draw (cells s2)\<rparr>
           in Ok (s3\<lparr>rafPending := True\<rparr>)))"

subsection \<open>Attaching the element, and the events it receives\<close>

text \<open>What \<^verbatim>\<open>connectedCallback\<close> reads from its host: the \<^verbatim>\<open>data-arts\<close> attribute,
  already parsed by \<^verbatim>\<open>JSON.parse\<close> (\<open>None\<close> when the attribute is absent), whether the
  element has a \<^verbatim>\<open>canvas\<close> child, the measured width of the glyph \<^verbatim>\<open>M\<close>, and the value of
  \<^verbatim>\<open>Math.random()\<close> that picks the style. The colour and the font of the drawing context only
  style the glyphs and are left out.\<close>

record host =
  artsAttr :: "string list list option"
  hasCanvas :: bool
  measuredWidth :: real
  fontRandom :: real

definition connectedCallback :: "host \<Rightarrow> banner \<Rightarrow> outcome" where
  "connectedCallback h s =
     (let arts = (case artsAttr h of None \<Rightarrow> [] | Some a \<Rightarrow> a)
      in if \<not> hasCanvas h \<or> length arts = 0 then Ok s
         else
           (let s1 = s\<lparr>charWidth := measuredWidth h\<rparr>;
                fontIndex = nat \<lfloor>fontRandom h * real (length arts)\<rfloor>
            in case item arts fontIndex of
                 None \<Rightarrow> Threw TypeError s1
               | Some style \<Rightarrow>
                   (let s2 = s1\<lparr>fontArts := style\<rparr>
                    in case initCanvas (item (fontArts s2) 0) s2 of
                         Threw e s' \<Rightarrow> Threw e s'
                       | Ok s3 \<Rightarrow>
                           Ok (snd (setTimeout ArmFirst INITIAL_DELAY
                                      (s3\<lparr>rafPending := True, listening := True\<rparr>))))))"

definition disconnectedCallback :: "banner \<Rightarrow> banner" where
  "disconnectedCallback s = clearTimeout (cycleTimer s) (s\<lparr>rafPending := False\<rparr>)"

definition mouseenter :: "banner \<Rightarrow> banner" where
  "mouseenter s = clearTimeout (cycleTimer s) (s\<lparr>hovering := True\<rparr>)"

definition mouseleave :: "banner \<Rightarrow> banner" where
  "mouseleave s =
     (let s1 = s\<lparr>hovering := False, mouseX := - 9999, mouseY := - 9999\<rparr>
      in if \<not> isMorphing s1 then scheduleCycle s1 else s1)"

text \<open>The events of the host. A frame carries its timestamp and the random values of the
  frame; a timer that fires carries its handle and the clock read by \<^verbatim>\<open>performance.now()\<close>;
  a mouse move carries the pointer already converted to canvas coordinates (the conversion
  of the handler reads the layout of the page, which is not modelled).\<close>

datatype event =
    Frame real "nat \<Rightarrow> real"
  | TimerFires nat real
  | MouseEnter
  | MouseMove real real
  | MouseLeave
  | Disconnect

fun fire :: "timer_action \<Rightarrow> real \<Rightarrow> banner \<Rightarrow> outcome" where
  "fire ArmFirst now s = Ok (scheduleCycle s)"
| "fire Tick now s = cycle now s"

fun step :: "event \<Rightarrow> banner \<Rightarrow> outcome" where
  "step (Frame timestamp rnd) s =
     (if rafPending s then render timestamp rnd (s\<lparr>rafPending := False\<rparr>) else Ok s)"
| "step (TimerFires h now) s =
     (if isPending h s then fire (fst (timers s ! (h - 1))) now (setStatus h Fired s) else Ok s)"
| "step MouseEnter s = Ok (if listening s then mouseenter s else s)"
| "step (MouseMove x y) s = Ok (if listening s then s\<lparr>mouseX := x, mouseY := y\<rparr> else s)"
| "step MouseLeave s = Ok (if listening s then mouseleave s else s)"
| "step Disconnect s = Ok (disconnectedCallback s)"

text \<open>A run of events; an exception in one handler leaves the later events to run on the
  state the handler left behind, as in the browser.\<close>

fun stateOf :: "outcome \<Rightarrow> banner" where
  "stateOf (Ok s) = s"
| "stateOf (Threw e s) = s"

fun run :: "event list \<Rightarrow> banner \<Rightarrow> banner" where
  "run [] s = s"
| "run (e # es) s = run es (stateOf (step e s))"

text \<open>The states the element can be in: those after an attach that did not throw and any
  events, in any order and with any timestamps. The element is attached once: the page holds
  it as static markup and never moves it.\<close>

inductive reachable :: "banner \<Rightarrow> bool" where
  attach: "connectedCallback h fresh = Ok s \<Longrightarrow> reachable s"
| event: "reachable s \<Longrightarrow> reachable (stateOf (step e s))"

subsection \<open>Notions used by the properties\<close>

text \<open>The clamp of the specification, \<open>clamp(x, lo, hi)\<close>.\<close>

definition clamp :: "real \<Rightarrow> real \<Rightarrow> real \<Rightarrow> real" where
  "clamp x lo hi = max lo (min x hi)"

text \<open>The pause sequence of the specification: the \<open>n\<close>-th pause, counted from 1, for the
  initial delay \<open>I\<close>, the step \<open>S\<close> and the cap \<open>M\<close>.\<close>

definition specPause :: "nat \<Rightarrow> nat \<Rightarrow> nat \<Rightarrow> nat \<Rightarrow> nat" where
  "specPause I S M n = min (I + (n - 1) * S) M"

text \<open>The delays of the cycle timers requested so far, oldest first, read off the host's
  timer table.\<close>

definition pauses :: "banner \<Rightarrow> nat list" where
  "pauses s = map snd (filter (\<lambda>p. fst p = Tick) (map (\<lambda>t. (fst t, fst (snd t))) (timers s)))"

text \<open>What a rebuild fixes of a cell and the frame loop never changes.\<close>

definition geometry :: "cell \<Rightarrow> nat \<times> nat \<times> real \<times> real" where
  "geometry c = (row c, col c, rx c, ry c)"

definition atRest :: "cell \<Rightarrow> bool" where
  "atRest c \<longleftrightarrow> px c = rx c \<and> py c = ry c \<and> vx c = 0 \<and> vy c = 0"

text \<open>The facts that hold of the morph record whenever a morph is active: it was started by
  \<^verbatim>\<open>cycle\<close> for a block of the style, on the cells that are still there.\<close>

definition invMorph :: "banner \<Rightarrow> bool" where
  "invMorph s \<longleftrightarrow>
     (active (morph s) \<longrightarrow>
        isMorphing s \<and>
        length (fromSnap (morph s)) = length (cells s) \<and>
        thresholds (morph s) = map (\<lambda>c. thresholdAt (row c) (col c)) (cells s) \<and>
        (\<exists>k art. onComplete (morph s) = Some (CycleDone k) \<and>
                  item (fontArts s) k = Some art \<and>
                  toLines (morph s) = split newline art))"

definition invPauses :: "banner \<Rightarrow> bool" where
  "invPauses s \<longleftrightarrow>
     pauses s = map (\<lambda>n. specPause 2000 1000 10000 (Suc n)) [0..<length (pauses s)] \<and>
     nextPause s = specPause 2000 1000 10000 (Suc (length (pauses s)))"

definition invAttached :: "banner \<Rightarrow> bool" where
  "invAttached s \<longleftrightarrow>
     fontArts s \<noteq> [] \<and> duration (morph s) = 600 \<and> invMorph s \<and> invPauses s"

text \<open>An element that was attached without styles or without a canvas stays as constructed.\<close>

definition inv :: "banner \<Rightarrow> bool" where
  "inv s \<longleftrightarrow> s = fresh \<or> invAttached s"

text \<open>The timers requested so far with their callbacks and delays, whatever became of
  them.\<close>

definition requests :: "banner \<Rightarrow> (timer_action \<times> nat) list" where
  "requests s = map (\<lambda>t. (fst t, fst (snd t))) (timers s)"

subsection \<open>Example states\<close>

text \<open>A host with one style of two blocks, \<open>AB / CD\<close> and \<open>XY / ZW\<close>, and glyphs eight
  units wide; the element attached to it; and the element after the first timer armed the
  cycle and the pointer entered and left the canvas.\<close>

definition demoHost :: host where
  "demoHost =
     \<lparr>artsAttr = Some [[''AB'' @ [newline] @ ''CD'', ''XY'' @ [newline] @ ''ZW'']],
      hasCanvas = True, measuredWidth = 8, fontRandom = 0\<rparr>"

definition demoAttached :: banner where
  "demoAttached = stateOf (connectedCallback demoHost fresh)"

definition demoIdle :: banner where
  "demoIdle = run [TimerFires 1 0, MouseEnter, MouseLeave] demoAttached"

text \<open>The element while its first morph runs: the pointer entered and left the canvas before
  the first timer fired, so two cycle timers were requested (handles 2 and 3); the first of
  them started the morph at clock 100 and the other is still pending.\<close>

definition demoMorphing :: banner where
  "demoMorphing = run [MouseEnter, MouseLeave, TimerFires 1 0, TimerFires 2 100] demoAttached"

text \<open>A morph record after its completion: only the flag is cleared.\<close>

definition finished :: "morph_state \<Rightarrow> morph_state" where
  "finished m = m\<lparr>active := False\<rparr>"

text \<open>A frame's random values that are all zero.\<close>

definition noRandom :: "nat \<Rightarrow> real" where
  "noRandom i = 0"


text \<open>A cell at rest at \<open>(3, 4)\<close>, five units from a pointer at the origin.\<close>

definition demoCell :: cell where
  "demoCell = \<lparr>char = CHR ''A'', row = 0, col = 0, rx = 3, ry = 4, px = 3, py = 4,
               vx = 0, vy = 0\<rparr>"

text \<open>A cell far out in a large grid, at row 177 and column 245670.\<close>

definition farCell :: cell where
  "farCell = demoCell\<lparr>row := 177, col := 245670\<rparr>"

text \<open>The pointer entered and left the canvas before the first timer fired, the first timer
  fired, and the pointer entered again.\<close>

definition demoHoverLeak :: banner where
  "demoHoverLeak = run [MouseEnter, MouseLeave, TimerFires 1 0, MouseEnter] demoAttached"

section \<open>Basic facts\<close>

subsection \<open>Arrays, lines and the grid\<close>

lemma item_eq: "item xs n = (if n < length xs then Some (xs ! n) else None)"
  by (induction xs n rule: item.induct) auto

lemma split_nonempty: "split d s \<noteq> []"
  by (induction s) (auto split: list.splits)

lemma enumerate_as_map: "enumerate n xs = map (\<lambda>i. (i, xs ! (i - n))) [n..<n + length xs]"
  by (rule nth_equalityI) (simp_all add: nth_enumerate_eq)

lemma buildGrid_length: "length (buildGrid cw art) = sum_list (map length (split newline art))"
proof -
  have "map (\<lambda>x. length (case x of (r, line) \<Rightarrow> map (\<lambda>(c, ch). mkCell cw r c ch) (enumerate 0 line))) (enumerate 0 ls)
        = map length ls" for ls :: "string list"
    by (auto simp: list_eq_iff_nth_eq nth_enumerate_eq)
  then show ?thesis
    by (simp add: buildGrid_def length_concat comp_def)
qed

lemma buildGrid_listing:
  "map (\<lambda>c. (row c, col c, char c)) (buildGrid cw art)
     = concat (map (\<lambda>r. map (\<lambda>c. (r, c, split newline art ! r ! c))
                               [0..<length (split newline art ! r)])
                   [0..<length (split newline art)])"
  by (simp add: buildGrid_def map_concat enumerate_as_map comp_def mkCell_def)



lemma fold_max_Max: "fold max xs (a::nat) = Max (insert a (set xs))"
  by (metis Max.set_eq_fold list.simps(15))

lemma maxCols_Max: "maxCols ls = Max (insert 0 (length ` set ls))"
  by (simp add: maxCols_def fold_max_Max)

lemma sum_list_le_max: "(\<forall>x\<in>set xs. x \<le> (m::nat)) \<Longrightarrow> sum_list xs \<le> length xs * m"
  by (induction xs) auto

lemma sum_list_eq_max_iff:
  "(\<forall>x\<in>set xs. x \<le> (m::nat)) \<Longrightarrow> sum_list xs = length xs * m \<longleftrightarrow> (\<forall>x\<in>set xs. x = m)"
proof (induction xs)
  case Nil then show ?case by simp
next
  case (Cons x xs)
  then have le: "sum_list xs \<le> length xs * m" and xm: "x \<le> m" by (auto intro: sum_list_le_max)
  show ?case using Cons le xm by auto
qed

subsection \<open>Timers and the pause sequence\<close>

lemma map_update_same: "i < length xs \<Longrightarrow> f y = f (xs ! i) \<Longrightarrow> map f (xs[i := y]) = map f xs"
  by (rule nth_equalityI) (auto simp: nth_list_update)

lemma isPending_iff: "isPending h s \<longleftrightarrow> 0 < h \<and> h \<le> length (timers s) \<and> snd (snd (timers s ! (h - 1))) = Pending"
  by (auto simp: isPending_def item_eq split: nat.splits option.splits)

lemma timers_setStatus: "map (\<lambda>t. (fst t, fst (snd t))) (timers (setStatus h st s)) = map (\<lambda>t. (fst t, fst (snd t))) (timers s)"
  by (auto simp: setStatus_def isPending_iff intro!: map_update_same)

lemma pauses_setStatus: "pauses (setStatus h st s) = pauses s"
  by (simp add: pauses_def timers_setStatus)

lemma pauses_scheduleCycle: "pauses (scheduleCycle s) = pauses s @ [nextPause s]"
  by (simp add: scheduleCycle_def setTimeout_def pauses_def)

lemma nextPause_scheduleCycle: "nextPause (scheduleCycle s) = min (nextPause s + 1000) 10000"
  by (simp add: scheduleCycle_def setTimeout_def PAUSE_STEP_def PAUSE_MAX_def)

lemma invPauses_scheduleCycle: "invPauses s \<Longrightarrow> invPauses (scheduleCycle s)"
  unfolding invPauses_def
  by (simp add: pauses_scheduleCycle nextPause_scheduleCycle specPause_def)

lemma invPauses_setStatus: "invPauses (setStatus h st s) = invPauses s"
  by (simp add: invPauses_def pauses_setStatus) (simp add: setStatus_def)

lemma invMorph_setStatus: "invMorph (setStatus h st s) = invMorph s"
  by (simp add: invMorph_def setStatus_def)

lemma invAttached_setStatus: "invAttached (setStatus h st s) = invAttached s"
  by (simp add: invAttached_def invPauses_setStatus invMorph_setStatus) (simp add: setStatus_def)

lemma invMorph_scheduleCycle: "invMorph (scheduleCycle s) = invMorph s"
  by (simp add: invMorph_def scheduleCycle_def setTimeout_def)

lemma invAttached_scheduleCycle: "invAttached s \<Longrightarrow> invAttached (scheduleCycle s)"
  by (simp add: invAttached_def invPauses_scheduleCycle invMorph_scheduleCycle)
     (simp add: scheduleCycle_def setTimeout_def)

lemma geometry_morphCell: "geometry (morphCell p r m i c) = geometry c"
  by (simp add: morphCell_def geometry_def split: option.splits)

lemma geometry_morphCells: "map geometry (morphCells p rnd m cs) = map geometry cs"
  by (rule nth_equalityI) (simp_all add: morphCells_def nth_enumerate_eq geometry_morphCell)


lemma geometry_physics: "geometry (physics mx my c) = geometry c"
  by (simp add: physics_def geometry_def Let_def)

lemma thresholds_geometry:
  "map geometry cs' = map geometry cs \<Longrightarrow>
   map (\<lambda>c. thresholdAt (row c) (col c)) cs' = map (\<lambda>c. thresholdAt (row c) (col c)) cs"
proof -
  assume a: "map geometry cs' = map geometry cs"
  have "(\<lambda>c. thresholdAt (row c) (col c)) = (\<lambda>g. thresholdAt (fst g) (fst (snd g))) \<circ> geometry"
    by (auto simp: geometry_def)
  then show ?thesis using a by (metis map_map)
qed

lemma invMorph_cells:
  "invMorph s \<Longrightarrow> map geometry cs = map geometry (cells s) \<Longrightarrow> invMorph (s\<lparr>cells := cs\<rparr>)"
  unfolding invMorph_def
  by (auto dest: thresholds_geometry map_eq_imp_length_eq)

subsection \<open>The invariant is kept by every method\<close>

lemma initCanvas_Some:
  "initCanvas (Some a) s = Ok s' \<Longrightarrow>
     cells s' = buildGrid (charWidth s) a \<and> morph s' = morph s \<and> fontArts s' = fontArts s \<and>
     timers s' = timers s \<and> nextPause s' = nextPause s \<and> isMorphing s' = isMorphing s \<and>
     hovering s' = hovering s \<and> charWidth s' = charWidth s \<and> listening s' = listening s \<and>
     rafPending s' = rafPending s \<and> cycleTimer s' = cycleTimer s"
  by (auto simp: initCanvas_def Let_def)

lemma initCanvas_Ok: "\<exists>s'. initCanvas (Some a) s = Ok s'"
  by (simp add: initCanvas_def Let_def)

lemma invAttached_initCanvas:
  assumes "invAttached s" "\<not> active (morph s)" "initCanvas (Some a) s = Ok s'"
  shows "invAttached s'"
  using assms initCanvas_Some[OF assms(3)]
  by (simp add: invAttached_def invMorph_def invPauses_def pauses_def)

lemma invAttached_startMorph:
  assumes "invAttached s" "isMorphing s" "item (fontArts s) k = Some art"
  shows "\<exists>s'. startMorph (Some art) (CycleDone k) now s = Ok s' \<and> invAttached s'"
  using assms
  by (auto simp: startMorph_def invAttached_def invMorph_def invPauses_def pauses_def Let_def)

lemma invAttached_cycle:
  assumes "invAttached s"
  shows "\<exists>s'. cycle now s = Ok s' \<and> invAttached s'"
proof (cases "isMorphing s \<or> hovering s")
  case True
  then show ?thesis using assms by (simp add: cycle_def)
next
  case False
  let ?s1 = "s\<lparr>isMorphing := True\<rparr>"
  let ?k = "(currentTextIndex s + 1) mod length (fontArts s)"
  from assms have ne: "fontArts s \<noteq> []" by (simp add: invAttached_def)
  then have "?k < length (fontArts s)" by simp
  then have it0: "item (fontArts s) ?k = Some (fontArts s ! ?k)" by (simp add: item_eq)
  then have it: "item (fontArts ?s1) ?k = Some (fontArts s ! ?k)" by simp
  from assms False have "\<not> active (morph s)" by (auto simp: invAttached_def invMorph_def)
  with assms have "invAttached ?s1"
    by (simp add: invAttached_def invMorph_def invPauses_def pauses_def)
  from invAttached_startMorph[OF this _ it, of now] False
  show ?thesis using it0 by (simp add: cycle_def Let_def)
qed

lemma invAttached_runCallback:
  assumes "invAttached s" "\<not> active (morph s)" "item (fontArts s) k = Some art"
  shows "\<exists>s'. runCallback (CycleDone k) s = Ok s' \<and> invAttached s'"
proof -
  obtain s1 where s1: "initCanvas (Some art) s = Ok s1" using initCanvas_Ok by blast
  from invAttached_initCanvas[OF assms(1,2) s1] initCanvas_Some[OF s1] assms(2)
  have "invAttached (s1\<lparr>currentTextIndex := k, isMorphing := False\<rparr>)"
    by (simp add: invAttached_def invMorph_def invPauses_def pauses_def)
  then have "invAttached (scheduleCycle (s1\<lparr>currentTextIndex := k, isMorphing := False\<rparr>))"
    by (rule invAttached_scheduleCycle)
  then show ?thesis using s1 assms(3) by simp
qed

lemma invAttached_cells:
  "invAttached s \<Longrightarrow> map geometry cs = map geometry (cells s) \<Longrightarrow> invAttached (s\<lparr>cells := cs\<rparr>)"
  by (simp add: invAttached_def invMorph_cells) (simp add: invPauses_def pauses_def)

lemma invAttached_morphUpdate:
  assumes "invAttached s"
  shows "\<exists>s'. morphUpdate ts rnd s = Ok s' \<and> invAttached s'"
proof (cases "active (morph s)")
  case False
  then show ?thesis using assms by (simp add: morphUpdate_def)
next
  case True
  let ?p = "progressAt ts (morph s)"
  let ?s1 = "s\<lparr>cells := morphCells ?p rnd (morph s) (cells s)\<rparr>"
  have s1: "invAttached ?s1" using assms by (simp add: invAttached_cells geometry_morphCells)
  show ?thesis
  proof (cases "?p \<ge> 1")
    case False
    then show ?thesis using True s1 by (simp add: morphUpdate_def Let_def)
  next
    case p1: True
    let ?s2 = "?s1\<lparr>morph := (morph ?s1)\<lparr>active := False\<rparr>\<rparr>"
    from assms True obtain k art where k: "onComplete (morph s) = Some (CycleDone k)"
      "item (fontArts s) k = Some art"
      by (auto simp: invAttached_def invMorph_def)
    have "invAttached ?s2" using s1
      by (simp add: invAttached_def invMorph_def invPauses_def pauses_def)
    from invAttached_runCallback[OF this, of k art] k
    obtain s' where "runCallback (CycleDone k) ?s2 = Ok s'" "invAttached s'" by auto
    then show ?thesis using True p1 k by (simp add: morphUpdate_def Let_def)
  qed
qed

lemma invAttached_render:
  assumes "invAttached s"
  shows "\<exists>s'. render ts rnd s = Ok s' \<and> invAttached s'"
proof -
  from invAttached_morphUpdate[OF assms] obtain s1 where
    s1: "morphUpdate ts rnd s = Ok s1" "invAttached s1" by blast
  have "map geometry (map (physics (mouseX s1) (mouseY s1)) (cells s1)) = map geometry (cells s1)"
    by (simp add: geometry_physics comp_def)
  from invAttached_cells[OF s1(2) this]
  have "invAttached (s1\<lparr>cells := map (physics (mouseX s1) (mouseY s1)) (cells s1)\<rparr>)" .
  then show ?thesis using s1(1)
    by (simp add: render_def Let_def invAttached_def invMorph_def invPauses_def pauses_def)
qed

subsection \<open>Every reachable state satisfies the invariant, and no handler throws\<close>

lemma not_pending_empty: "timers s = [] \<Longrightarrow> \<not> isPending h s"
  by (auto simp: isPending_iff)

lemma not_pending_fresh: "\<not> isPending h fresh"
  by (rule not_pending_empty) (simp add: fresh_def)

lemma not_pending_fresh': "\<not> isPending h (fresh\<lparr>rafPending := False\<rparr>)"
  by (rule not_pending_empty) (simp add: fresh_def)

lemma step_fresh: "step e fresh = Ok fresh"
proof (cases e)
  case Disconnect
  then show ?thesis
    by (simp add: disconnectedCallback_def clearTimeout_def setStatus_def not_pending_fresh')
       (simp add: fresh_def)
qed (simp_all add: not_pending_fresh, simp_all add: fresh_def)

lemma invAttached_mouseenter: "invAttached s \<Longrightarrow> invAttached (mouseenter s)"
  by (simp add: mouseenter_def clearTimeout_def invAttached_setStatus)
     (simp add: invAttached_def invMorph_def invPauses_def pauses_def)

lemma invAttached_mouseleave: "invAttached s \<Longrightarrow> invAttached (mouseleave s)"
proof -
  assume a: "invAttached s"
  then have "invAttached (s\<lparr>hovering := False, mouseX := - 9999, mouseY := - 9999\<rparr>)"
    by (simp add: invAttached_def invMorph_def invPauses_def pauses_def)
  then show ?thesis
    by (simp add: mouseleave_def Let_def invAttached_scheduleCycle)
qed

lemma invAttached_disconnected: "invAttached s \<Longrightarrow> invAttached (disconnectedCallback s)"
  by (simp add: disconnectedCallback_def clearTimeout_def invAttached_setStatus)
     (simp add: invAttached_def invMorph_def invPauses_def pauses_def)

lemma invAttached_fire:
  assumes "invAttached s"
  shows "\<exists>s'. fire a now s = Ok s' \<and> invAttached s'"
  using assms by (cases a) (simp_all add: invAttached_scheduleCycle invAttached_cycle)

lemma invAttached_step:
  assumes "invAttached s"
  shows "\<exists>s'. step e s = Ok s' \<and> invAttached s'"
proof (cases e)
  case (Frame ts rnd)
  have "invAttached (s\<lparr>rafPending := False\<rparr>)" using assms
    by (simp add: invAttached_def invMorph_def invPauses_def pauses_def)
  from invAttached_render[OF this] show ?thesis using Frame assms by simp
next
  case (TimerFires h now)
  have "invAttached (setStatus h Fired s)" using assms by (simp add: invAttached_setStatus)
  from invAttached_fire[OF this] show ?thesis using TimerFires assms by simp
next
  case MouseEnter
  then show ?thesis using assms by (simp add: invAttached_mouseenter)
next
  case (MouseMove x y)
  have "invAttached (s\<lparr>mouseX := x, mouseY := y\<rparr>)" using assms
    by (simp add: invAttached_def invMorph_def invPauses_def pauses_def)
  then show ?thesis using MouseMove assms by simp
next
  case MouseLeave
  then show ?thesis using assms by (simp add: invAttached_mouseleave)
next
  case Disconnect
  then show ?thesis using assms by (simp add: invAttached_disconnected)
qed

lemma inv_step: "inv s \<Longrightarrow> \<exists>s'. step e s = Ok s' \<and> inv s'"
  unfolding inv_def using step_fresh invAttached_step by blast

lemma specPause_1: "specPause 2000 1000 10000 (Suc 0) = 2000"
  by (simp add: specPause_def)

lemma inv_connected:
  assumes "connectedCallback h fresh = Ok s"
  shows "inv s"
proof (cases "\<not> hasCanvas h \<or> length (case artsAttr h of None \<Rightarrow> [] | Some a \<Rightarrow> a) = 0")
  case True
  then show ?thesis using assms by (simp add: connectedCallback_def inv_def)
next
  case False
  let ?arts = "case artsAttr h of None \<Rightarrow> [] | Some a \<Rightarrow> a"
  let ?s1 = "fresh\<lparr>charWidth := measuredWidth h\<rparr>"
  let ?i = "nat \<lfloor>fontRandom h * real (length ?arts)\<rfloor>"
  from assms False obtain style where st: "item ?arts ?i = Some style"
    by (auto simp: connectedCallback_def Let_def split: option.splits)
  let ?s2 = "?s1\<lparr>fontArts := style\<rparr>"
  from assms False st obtain s3 where s3: "initCanvas (item style 0) ?s2 = Ok s3"
    and s: "s = snd (setTimeout ArmFirst INITIAL_DELAY (s3\<lparr>rafPending := True, listening := True\<rparr>))"
    by (auto simp: connectedCallback_def Let_def split: option.splits outcome.splits)
  from s3 obtain a where a: "item style 0 = Some a"
    by (cases "item style 0") (auto simp: initCanvas_def)
  then have ne: "style \<noteq> []" by (cases style) auto
  from s3 a have i3: "initCanvas (Some a) ?s2 = Ok s3" by simp
  have "invAttached ?s2" using ne
    by (simp add: invAttached_def invMorph_def invPauses_def pauses_def fresh_def specPause_1)
  from invAttached_initCanvas[OF this _ i3] have "invAttached s3" by (simp add: fresh_def)
  then have "invAttached s" unfolding s
    by (simp add: invAttached_def invMorph_def invPauses_def pauses_def setTimeout_def)
  then show ?thesis by (simp add: inv_def)
qed

lemma reachable_inv: "reachable s \<Longrightarrow> inv s"
proof (induction rule: reachable.induct)
  case (attach h s)
  then show ?case by (rule inv_connected)
next
  case (event s e)
  from inv_step[OF event.IH, of e] show ?case by auto
qed

lemma reachable_never_throws: "reachable s \<Longrightarrow> \<exists>s'. step e s = Ok s'"
  using reachable_inv inv_step by blast

section \<open>The grid builder\<close>

lemma maxCols_ge: "l \<in> set ls \<Longrightarrow> length l \<le> maxCols ls"
  by (simp add: maxCols_Max)

text \<open>
  Claim C1, as the code has it. The grid built from an art block holds exactly one cell per
  character of the block, in row-major order: one for each \<open>(row, col)\<close> with \<open>col\<close> below
  the actual length of line \<open>row\<close>, holding the character found there. Lines are not padded:
  the number of cells is the sum of the line lengths, and it equals (number of lines) times
  (maximum line length) exactly when every line has the maximum length.
\<close>

theorem buildGrid_one_cell_per_character:
  "map (\<lambda>c. (row c, col c, char c)) (buildGrid cw art)
     = concat (map (\<lambda>r. map (\<lambda>c. (r, c, split newline art ! r ! c))
                               [0..<length (split newline art ! r)])
                   [0..<length (split newline art)])
   \<and> length (buildGrid cw art) = sum_list (map length (split newline art))
   \<and> (length (buildGrid cw art) = length (split newline art) * maxCols (split newline art)
        \<longleftrightarrow> (\<forall>l \<in> set (split newline art). length l = maxCols (split newline art)))"
proof -
  let ?ls = "split newline art"
  have "\<forall>n \<in> set (map length ?ls). n \<le> maxCols ?ls"
    by (auto simp: maxCols_ge)
  from sum_list_eq_max_iff[OF this]
  have "sum_list (map length ?ls) = length ?ls * maxCols ?ls
          \<longleftrightarrow> (\<forall>l \<in> set ?ls. length l = maxCols ?ls)"
    by simp
  then show ?thesis
    by (simp only: buildGrid_listing buildGrid_length)
qed

text \<open>The block \<open>AB / CD\<close> has equal lines: four cells, two rows of two.\<close>

theorem buildGrid_one_cell_per_character_witness:
  "map (\<lambda>c. (row c, col c, char c)) (buildGrid 8 (''AB'' @ [newline] @ ''CD''))
     = [(0, 0, CHR ''A''), (0, 1, CHR ''B''), (1, 0, CHR ''C''), (1, 1, CHR ''D'')]
   \<and> length (buildGrid 8 (''AB'' @ [newline] @ ''CD'')) = 2 * 2
   \<and> map length (split newline (''AB'' @ [newline] @ ''CD'')) = [2, 2]"
  using buildGrid_one_cell_per_character[of 8 "''AB'' @ [newline] @ ''CD''"]
  by (simp add: newline_def maxCols_def upt_rec)

text \<open>The ragged block \<open>AB / C\<close> has two lines of maximum length two and only three cells:
  no cell stands at row 1, column 1.\<close>

theorem buildGrid_ragged_counterexample:
  "length (buildGrid 8 (''AB'' @ [newline] @ ''C''))
     \<noteq> length (split newline (''AB'' @ [newline] @ ''C''))
         * maxCols (split newline (''AB'' @ [newline] @ ''C''))"
  by (simp add: buildGrid_def newline_def maxCols_def enumerate_eq_zip upt_rec)

section \<open>Example states, evaluated\<close>

lemmas eval_defs = connectedCallback_def initCanvas_def setTimeout_def buildGrid_def
  newline_def maxCols_def enumerate_eq_zip upt_rec mkCell_def LINE_HEIGHT_def FONT_SIZE_def
  INITIAL_DELAY_def Let_def

lemma demo_connected: "connectedCallback demoHost fresh = Ok demoAttached"
  unfolding demoAttached_def
  by (simp add: demoHost_def fresh_def eval_defs)

lemma demoAttached_fields:
  "timers demoAttached = [(ArmFirst, 2000, Pending)]"
  "nextPause demoAttached = 2000"
  "listening demoAttached"
  "\<not> isMorphing demoAttached"
  "\<not> hovering demoAttached"
  "\<not> active (morph demoAttached)"
  "map char (cells demoAttached) = ''ABCD''"
  "fontArts demoAttached = [''AB'' @ [newline] @ ''CD'', ''XY'' @ [newline] @ ''ZW'']"
  unfolding demoAttached_def
  by (simp_all add: demoHost_def fresh_def eval_defs)

lemma reachable_run: "reachable s \<Longrightarrow> reachable (run es s)"
  by (induction es arbitrary: s) (auto intro: reachable.event)

lemma reachable_demoAttached: "reachable demoAttached"
  using demo_connected by (rule reachable.attach)

lemma demoIdle_pauses: "pauses demoIdle = [2000, 3000]" "nextPause demoIdle = 4000"
  unfolding demoIdle_def demoAttached_def
  by (simp_all add: demoHost_def fresh_def eval_defs isPending_def setStatus_def
      scheduleCycle_def mouseenter_def mouseleave_def clearTimeout_def pauses_def
      PAUSE_STEP_def PAUSE_MAX_def)

lemma reachable_demoIdle: "reachable demoIdle"
  unfolding demoIdle_def using reachable_demoAttached by (rule reachable_run)

section \<open>The pause sequence\<close>

lemma pauses_requests: "pauses s = map snd (filter (\<lambda>p. fst p = Tick) (requests s))"
  by (simp add: pauses_def requests_def)

lemma requests_setStatus: "requests (setStatus h st s) = requests s"
  by (simp add: requests_def timers_setStatus)

lemma requests_scheduleCycle: "requests (scheduleCycle s) = requests s @ [(Tick, nextPause s)]"
  by (simp add: requests_def scheduleCycle_def setTimeout_def)

lemma requests_startMorph: "requests (stateOf (startMorph a cb now s)) = requests s"
  by (simp add: requests_def startMorph_def Let_def split: option.splits)

lemma requests_cycle: "requests (stateOf (cycle now s)) = requests s"
  by (simp add: cycle_def Let_def requests_startMorph) (simp add: requests_def)

lemma requests_initCanvas: "requests (stateOf (initCanvas a s)) = requests s"
  by (simp add: requests_def initCanvas_def Let_def split: option.splits)

lemma requests_runCallback:
  "\<exists>more. requests (stateOf (runCallback cb s)) = requests s @ more"
proof (cases cb)
  case (CycleDone k)
  show ?thesis
  proof (cases "initCanvas (item (fontArts s) k) s")
    case (Ok s1)
    then have "requests s1 = requests s" using requests_initCanvas[of "item (fontArts s) k" s] by simp
    then show ?thesis using Ok CycleDone
      by (simp add: requests_scheduleCycle) (simp add: requests_def)
  next
    case (Threw e s1)
    then have "requests s1 = requests s" using requests_initCanvas[of "item (fontArts s) k" s] by simp
    then show ?thesis using Threw CycleDone by simp
  qed
qed

lemma requests_morphUpdate:
  "\<exists>more. requests (stateOf (morphUpdate ts rnd s)) = requests s @ more"
proof -
  have "\<exists>more. requests (stateOf (runCallback cb s')) = requests s @ more"
    if "timers s' = timers s" for cb s'
    using requests_runCallback[of cb s'] that by (simp add: requests_def)
  then show ?thesis
    by (simp add: morphUpdate_def Let_def split: option.splits) (simp add: requests_def)
qed

lemma requests_render:
  "\<exists>more. requests (stateOf (render ts rnd s)) = requests s @ more"
proof (cases "morphUpdate ts rnd s")
  case (Ok s1)
  then show ?thesis using requests_morphUpdate[of ts rnd s]
    by (simp add: render_def Let_def) (simp add: requests_def)
next
  case (Threw e s1)
  then show ?thesis using requests_morphUpdate[of ts rnd s] by (simp add: render_def)
qed

lemma requests_step: "\<exists>more. requests (stateOf (step e s)) = requests s @ more"
proof (cases e)
  case (Frame ts rnd)
  have "requests (s\<lparr>rafPending := False\<rparr>) = requests s" by (simp add: requests_def)
  then show ?thesis using Frame requests_render[of ts rnd "s\<lparr>rafPending := False\<rparr>"] by simp
next
  case (TimerFires h now)
  show ?thesis
  proof (cases "fst (timers s ! (h - 1))")
    case ArmFirst
    then show ?thesis using TimerFires
      by (simp add: requests_scheduleCycle requests_setStatus)
  next
    case Tick
    then show ?thesis using TimerFires
      by (simp add: requests_cycle requests_setStatus)
  qed
next
  case MouseEnter
  then show ?thesis
    by (simp add: mouseenter_def clearTimeout_def requests_setStatus) (simp add: requests_def)
next
  case (MouseMove x y)
  then show ?thesis by (simp add: requests_def)
next
  case MouseLeave
  have "requests (s\<lparr>hovering := False, mouseX := - 9999, mouseY := - 9999\<rparr>) = requests s"
    by (simp add: requests_def)
  then show ?thesis using MouseLeave
    by (simp add: mouseleave_def Let_def requests_scheduleCycle)
next
  case Disconnect
  then show ?thesis
    by (simp add: disconnectedCallback_def clearTimeout_def requests_setStatus)
       (simp add: requests_def)
qed

lemma pauses_step: "\<exists>more. pauses (stateOf (step e s)) = pauses s @ more"
  using requests_step[of e s] by (auto simp: pauses_requests)

lemma invPauses_fresh: "invPauses fresh"
  by (simp add: invPauses_def pauses_def fresh_def specPause_def)

lemma reachable_invPauses: "reachable s \<Longrightarrow> invPauses s"
  using reachable_inv[of s] invPauses_fresh by (auto simp: inv_def invAttached_def)

lemma specPause_mono: "m \<le> n \<Longrightarrow> specPause I S M m \<le> specPause I S M n"
  by (simp add: specPause_def min.coboundedI1 diff_le_mono)

text \<open>
  Claim C4. The delays of the cycle timers are read off the host's timer table: the \<open>n\<close>-th
  pause is the delay of the \<open>n\<close>-th timer that \<^verbatim>\<open>scheduleCycle\<close> requested. In every
  reachable state the \<open>n\<close>-th pause is \<open>min (2000 + (n - 1) * 1000) 10000\<close>, the pause kept
  for the next request is the next value of the sequence, the pauses never decrease, and no
  event rewrites a pause already requested or lowers the pause kept for the next one.
\<close>

theorem pause_sequence:
  assumes "reachable s"
  shows "(\<forall>n. 1 \<le> n \<and> n \<le> length (pauses s)
               \<longrightarrow> pauses s ! (n - 1) = specPause 2000 1000 10000 n)
         \<and> nextPause s = specPause 2000 1000 10000 (length (pauses s) + 1)
         \<and> sorted (pauses s)
         \<and> (\<exists>more. pauses (stateOf (step e s)) = pauses s @ more)
         \<and> nextPause s \<le> nextPause (stateOf (step e s))"
proof -
  let ?sp = "specPause 2000 1000 10000"
  let ?s' = "stateOf (step e s)"
  from assms have ip: "invPauses s" by (rule reachable_invPauses)
  have "reachable ?s'" using assms by (rule reachable.event)
  then have ip': "invPauses ?s'" by (rule reachable_invPauses)
  from ip have eq: "pauses s = map (\<lambda>n. ?sp (Suc n)) [0..<length (pauses s)]"
    and np: "nextPause s = ?sp (Suc (length (pauses s)))"
    by (simp_all add: invPauses_def)
  have nth: "pauses s ! (n - 1) = ?sp n" if "1 \<le> n" "n \<le> length (pauses s)" for n
  proof -
    from that have "n - 1 < length (pauses s)" by simp
    then have "pauses s ! (n - 1) = map (\<lambda>n. ?sp (Suc n)) [0..<length (pauses s)] ! (n - 1)"
      using eq by simp
    also have "\<dots> = ?sp (Suc (n - 1))" using \<open>n - 1 < length (pauses s)\<close> by simp
    finally show ?thesis using that by simp
  qed
  have srt: "sorted (pauses s)"
    by (subst eq) (auto simp: sorted_iff_nth_mono intro!: specPause_mono simp del: upt_Suc)
  obtain more where more: "pauses ?s' = pauses s @ more" using pauses_step by blast
  then have "length (pauses s) \<le> length (pauses ?s')" by simp
  then have "?sp (Suc (length (pauses s))) \<le> ?sp (Suc (length (pauses ?s')))"
    by (intro specPause_mono) simp
  then have mono: "nextPause s \<le> nextPause ?s'" using np ip' by (simp add: invPauses_def)
  show ?thesis using nth np srt more mono by auto
qed

text \<open>After the first timer armed the cycle (pause 2000) and the pointer entered and left the
  canvas (pause 3000), the second pause is 3000 and the next one will be 4000.\<close>

theorem pause_sequence_witness:
  "reachable demoIdle
   \<and> pauses demoIdle = [2000, 3000]
   \<and> pauses demoIdle ! (2 - 1) = specPause 2000 1000 10000 2
   \<and> nextPause demoIdle = specPause 2000 1000 10000 3
   \<and> nextPause demoIdle \<le> nextPause (stateOf (step MouseLeave demoIdle))"
  using pause_sequence[OF reachable_demoIdle, of MouseLeave] reachable_demoIdle
  by (simp add: demoIdle_pauses specPause_def)

section \<open>One morph at a time\<close>

lemma scheduleCycle_keeps:
  "morph (scheduleCycle s) = morph s" "cells (scheduleCycle s) = cells s"
  "isMorphing (scheduleCycle s) = isMorphing s" "hovering (scheduleCycle s) = hovering s"
  "fontArts (scheduleCycle s) = fontArts s"
  by (simp_all add: scheduleCycle_def setTimeout_def)

lemma setStatus_keeps:
  "morph (setStatus h st s) = morph s" "cells (setStatus h st s) = cells s"
  "isMorphing (setStatus h st s) = isMorphing s" "hovering (setStatus h st s) = hovering s"
  "fontArts (setStatus h st s) = fontArts s" "listening (setStatus h st s) = listening s"
  "nextPause (setStatus h st s) = nextPause s" "cycleTimer (setStatus h st s) = cycleTimer s"
  by (simp_all add: setStatus_def)

lemma reachable_invMorph: "reachable s \<Longrightarrow> invMorph s"
  using reachable_inv[of s] by (auto simp: inv_def invAttached_def invMorph_def fresh_def)

text \<open>While a morph is active, an event either leaves the morph record and the geometry of
  the cells as they are, or it is the frame that completes the morph.\<close>

lemma active_morphUpdate:
  assumes "invMorph s" "active (morph s)" "fontArts s \<noteq> []"
  shows "(morphUpdate ts rnd s = Ok (s\<lparr>cells := morphCells (progressAt ts (morph s)) rnd (morph s) (cells s)\<rparr>)
          \<and> progressAt ts (morph s) < 1)
       \<or> (morph (stateOf (morphUpdate ts rnd s)) = finished (morph s) \<and> progressAt ts (morph s) \<ge> 1)"
proof (cases "progressAt ts (morph s) \<ge> 1")
  case False
  then show ?thesis using assms by (simp add: morphUpdate_def Let_def)
next
  case True
  from assms obtain k art where k: "onComplete (morph s) = Some (CycleDone k)"
    "item (fontArts s) k = Some art"
    by (auto simp: invMorph_def)
  let ?s2 = "s\<lparr>cells := morphCells (progressAt ts (morph s)) rnd (morph s) (cells s),
               morph := finished (morph s)\<rparr>"
  obtain s3 where s3: "initCanvas (Some art) ?s2 = Ok s3" using initCanvas_Ok by blast
  have "morph s3 = finished (morph s)" using initCanvas_Some[OF s3] by simp
  then show ?thesis using True assms k s3
    by (simp add: morphUpdate_def Let_def finished_def scheduleCycle_keeps)
qed

lemma active_step:
  assumes "reachable s" "active (morph s)"
  shows "(morph (stateOf (step e s)) = morph s
            \<and> map geometry (cells (stateOf (step e s))) = map geometry (cells s))
         \<or> (morph (stateOf (step e s)) = finished (morph s) \<and> (\<exists>ts rnd. e = Frame ts rnd))"
proof -
  from assms have im: "invMorph s" by (simp add: reachable_invMorph)
  with assms have ism: "isMorphing s" by (simp add: invMorph_def)
  from assms reachable_inv[of s] have ne: "fontArts s \<noteq> []"
    by (auto simp: inv_def invAttached_def fresh_def)
  show ?thesis
  proof (cases e)
    case (Frame ts rnd)
    show ?thesis
    proof (cases "rafPending s")
      case False
      then show ?thesis using Frame by simp
    next
      case True
      let ?s0 = "s\<lparr>rafPending := False\<rparr>"
      have "invMorph ?s0" "active (morph ?s0)" "fontArts ?s0 \<noteq> []"
        using im assms ne by (simp_all add: invMorph_def)
      from active_morphUpdate[OF this, of ts rnd]
      show ?thesis
      proof
        assume a: "morphUpdate ts rnd ?s0 = Ok (?s0\<lparr>cells := morphCells (progressAt ts (morph ?s0)) rnd (morph ?s0) (cells ?s0)\<rparr>)
                    \<and> progressAt ts (morph ?s0) < 1"
        then show ?thesis using Frame True
          by (simp add: render_def Let_def comp_def geometry_physics geometry_morphCells)
      next
        assume a: "morph (stateOf (morphUpdate ts rnd ?s0)) = finished (morph ?s0)
                    \<and> progressAt ts (morph ?s0) \<ge> 1"
        then have "morph (stateOf (render ts rnd ?s0)) = finished (morph s)"
          by (cases "morphUpdate ts rnd ?s0") (simp_all add: render_def Let_def)
        then show ?thesis using Frame True by simp
      qed
    qed
  next
    case (TimerFires h now)
    show ?thesis
    proof (cases "fst (timers s ! (h - 1))")
      case ArmFirst
      then show ?thesis using TimerFires by (simp add: scheduleCycle_keeps setStatus_keeps)
    next
      case Tick
      then show ?thesis using TimerFires ism by (simp add: cycle_def setStatus_keeps)
    qed
  next
    case MouseEnter
    then show ?thesis by (simp add: mouseenter_def clearTimeout_def setStatus_keeps)
  next
    case (MouseMove x y)
    then show ?thesis by simp
  next
    case MouseLeave
    then show ?thesis using ism by (simp add: mouseleave_def Let_def)
  next
    case Disconnect
    then show ?thesis by (simp add: disconnectedCallback_def clearTimeout_def setStatus_keeps)
  qed
qed

lemmas run_defs = isPending_def setStatus_def scheduleCycle_def mouseenter_def mouseleave_def
  clearTimeout_def cycle_def startMorph_def PAUSE_STEP_def PAUSE_MAX_def item_eq

lemma demoMorphing_fields:
  "active (morph demoMorphing)"
  "isPending 3 demoMorphing"
  "fst (timers demoMorphing ! 2) = Tick"
  "length (cells demoMorphing) = 4"
  "length (fromSnap (morph demoMorphing)) = 4"
  "length (thresholds (morph demoMorphing)) = 4"
  "listening demoMorphing"
  unfolding demoMorphing_def demoAttached_def
  by (simp_all add: demoHost_def fresh_def eval_defs run_defs)

lemma reachable_demoMorphing: "reachable demoMorphing"
  unfolding demoMorphing_def using reachable_demoAttached by (rule reachable_run)

text \<open>
  Claim C6. \<^verbatim>\<open>startMorph\<close> called while a morph is active returns at once and leaves the
  whole state as it is, so no second snapshot, target grid, threshold array or callback is
  stored. In a reachable state with an active morph, \<^verbatim>\<open>cycle\<close> does nothing either, a cycle
  timer that fires only has its entry of the host's timer table marked as fired, and no event
  changes the morph record except the frame that completes it, which only clears the active
  flag.
\<close>

theorem startMorph_noop_while_active:
  "(active (morph s) \<longrightarrow> startMorph toArt cb now s = Ok s)
   \<and> (reachable s \<and> active (morph s) \<longrightarrow>
        cycle now s = Ok s
        \<and> (\<forall>h. isPending h s \<and> fst (timers s ! (h - 1)) = Tick
                 \<longrightarrow> step (TimerFires h now) s = Ok (setStatus h Fired s)
                     \<and> morph (setStatus h Fired s) = morph s
                     \<and> cells (setStatus h Fired s) = cells s)
        \<and> (morph (stateOf (step e s)) = morph s
             \<or> (morph (stateOf (step e s)) = finished (morph s) \<and> (\<exists>ts rnd. e = Frame ts rnd))))"
proof -
  have guard: "startMorph toArt cb now s = Ok s" if "active (morph s)"
    using that by (simp add: startMorph_def)
  have rest: "cycle now s = Ok s
        \<and> (\<forall>h. isPending h s \<and> fst (timers s ! (h - 1)) = Tick
                 \<longrightarrow> step (TimerFires h now) s = Ok (setStatus h Fired s)
                     \<and> morph (setStatus h Fired s) = morph s
                     \<and> cells (setStatus h Fired s) = cells s)
        \<and> (morph (stateOf (step e s)) = morph s
             \<or> (morph (stateOf (step e s)) = finished (morph s) \<and> (\<exists>ts rnd. e = Frame ts rnd)))"
    if r: "reachable s" and a: "active (morph s)"
  proof -
    from r a have ism: "isMorphing s" using reachable_invMorph by (simp add: invMorph_def)
    then have c: "cycle now s = Ok s" by (simp add: cycle_def)
    have t: "step (TimerFires h now) s = Ok (setStatus h Fired s)"
      if "isPending h s" "fst (timers s ! (h - 1)) = Tick" for h
      using that ism by (simp add: cycle_def setStatus_keeps)
    from active_step[OF r a, of e] c t show ?thesis by (auto simp: setStatus_keeps)
  qed
  from guard rest show ?thesis by blast
qed

text \<open>While the first morph of the example runs, a second cycle timer (handle 3) is pending;
  starting a morph or firing that timer leaves the morph as it is.\<close>

theorem startMorph_noop_while_active_witness:
  "reachable demoMorphing \<and> active (morph demoMorphing) \<and> isPending 3 demoMorphing
   \<and> fst (timers demoMorphing ! (3 - 1)) = Tick
   \<and> startMorph (Some ''Q'') (CycleDone 0) 200 demoMorphing = Ok demoMorphing
   \<and> cycle 200 demoMorphing = Ok demoMorphing
   \<and> step (TimerFires 3 200) demoMorphing = Ok (setStatus 3 Fired demoMorphing)
   \<and> morph (setStatus 3 Fired demoMorphing) = morph demoMorphing"
  using startMorph_noop_while_active[of demoMorphing "Some ''Q''" "CycleDone 0" 200 MouseEnter]
    reachable_demoMorphing demoMorphing_fields
  by simp

section \<open>The morph arrays cover the cells\<close>

text \<open>
  Claim C10. In every reachable state with an active morph, the snapshot and the threshold
  array have as many entries as there are cells, so the reads \<^verbatim>\<open>fromSnap[i]\<close> and
  \<^verbatim>\<open>thresholds[i]\<close> of the morph update are in range for every cell index; and an event that
  leaves the morph active leaves the number of cells and their rows, columns and rest
  positions as they are: the cells are rebuilt only by the frame that completes the morph,
  after the flag is cleared.
\<close>

theorem morph_arrays_match_cells:
  assumes "reachable s" "active (morph s)"
  shows "length (fromSnap (morph s)) = length (cells s)
       \<and> length (thresholds (morph s)) = length (cells s)
       \<and> (\<forall>i < length (cells s).
             item (fromSnap (morph s)) i = Some (fromSnap (morph s) ! i)
             \<and> item (thresholds (morph s)) i = Some (thresholds (morph s) ! i))
       \<and> (active (morph (stateOf (step e s)))
            \<longrightarrow> map geometry (cells (stateOf (step e s))) = map geometry (cells s)
                \<and> length (cells (stateOf (step e s))) = length (cells s))"
proof -
  from assms have im: "invMorph s" by (simp add: reachable_invMorph)
  with assms(2) have l1: "length (fromSnap (morph s)) = length (cells s)"
    and l2: "length (thresholds (morph s)) = length (cells s)"
    by (simp_all add: invMorph_def)
  have g: "map geometry (cells (stateOf (step e s))) = map geometry (cells s)"
    if "active (morph (stateOf (step e s)))"
    using active_step[OF assms, of e] that by (auto simp: finished_def)
  then have "length (cells (stateOf (step e s))) = length (cells s)"
    if "active (morph (stateOf (step e s)))"
    using that map_eq_imp_length_eq by blast
  with g l1 l2 show ?thesis by (simp add: item_eq)
qed

text \<open>In the example the morph runs on four cells with four snapshots and four thresholds.\<close>

theorem morph_arrays_match_cells_witness:
  "reachable demoMorphing \<and> active (morph demoMorphing)
   \<and> length (cells demoMorphing) = 4
   \<and> length (fromSnap (morph demoMorphing)) = length (cells demoMorphing)
   \<and> length (thresholds (morph demoMorphing)) = length (cells demoMorphing)
   \<and> item (thresholds (morph demoMorphing)) 3 = Some (thresholds (morph demoMorphing) ! 3)
   \<and> map geometry (cells (stateOf (step (MouseMove 1 1) demoMorphing)))
       = map geometry (cells demoMorphing)"
  using morph_arrays_match_cells[OF reachable_demoMorphing, of "MouseMove 1 1"]
    reachable_demoMorphing demoMorphing_fields
  by simp

section \<open>Completion of a morph\<close>

lemma atRest_mkCell: "atRest (mkCell cw r c ch)"
  by (simp add: atRest_def mkCell_def)

lemma atRest_buildGrid: "c \<in> set (buildGrid cw a) \<Longrightarrow> atRest c"
  by (auto simp: buildGrid_def atRest_mkCell)

lemma morphUpdate_inactive: "\<not> active (morph s) \<Longrightarrow> morphUpdate ts rnd s = Ok s"
  by (simp add: morphUpdate_def)

lemma progressAt_le_1: "progressAt ts m \<le> 1"
  by (simp add: progressAt_def)

lemma demoMorphing_morph:
  "onComplete (morph demoMorphing) = Some (CycleDone 1)"
  "startTime (morph demoMorphing) = 100"
  "duration (morph demoMorphing) = 600"
  "fontArts demoMorphing = [''AB'' @ [newline] @ ''CD'', ''XY'' @ [newline] @ ''ZW'']"
  "charWidth demoMorphing = 8"
  "rafPending demoMorphing"
  "mouseX demoMorphing = - 9999" "mouseY demoMorphing = - 9999"
  "map char (fromSnap (morph demoMorphing)) = ''ABCD''"
  "toLines (morph demoMorphing) = [''XY'', ''ZW'']"
  "map geometry (cells demoMorphing) = [(0, 0, 0, 14), (0, 1, 8, 14), (1, 0, 0, 32), (1, 1, 8, 32)]"
  unfolding demoMorphing_def demoAttached_def
  by (simp_all add: demoHost_def fresh_def eval_defs run_defs geometry_def)

text \<open>
  Claim C5. Every grid rebuild gives cells at rest: the current position is the rest position
  and the velocity is zero. In a reachable state with an active morph, the frame whose
  progress reaches 1 clears the active flag and runs the completion callback once, on the
  state with the flag cleared: the callback is the one \<^verbatim>\<open>cycle\<close> made for the block the morph
  targets, it rebuilds the grid from that block, clears \<^verbatim>\<open>isMorphing\<close>, moves the text index
  and requests one cycle timer. The morph update of any later frame leaves the resulting
  state as it is, so the callback does not run again.
\<close>

theorem morph_completion:
  "(\<forall>c \<in> set (buildGrid cw a). atRest c)
   \<and> (reachable s \<and> active (morph s) \<and> progressAt ts (morph s) \<ge> 1 \<longrightarrow>
        (\<exists>k art s'.
            onComplete (morph s) = Some (CycleDone k)
            \<and> item (fontArts s) k = Some art
            \<and> toLines (morph s) = split newline art
            \<and> morphUpdate ts rnd s = Ok s'
            \<and> runCallback (CycleDone k)
                 (s\<lparr>cells := morphCells 1 rnd (morph s) (cells s),
                    morph := finished (morph s)\<rparr>) = Ok s'
            \<and> morph s' = finished (morph s)
            \<and> \<not> active (morph s')
            \<and> cells s' = buildGrid (charWidth s) art
            \<and> (\<forall>c \<in> set (cells s'). atRest c)
            \<and> \<not> isMorphing s' \<and> currentTextIndex s' = k
            \<and> pauses s' = pauses s @ [nextPause s]
            \<and> (\<forall>ts' rnd'. morphUpdate ts' rnd' s' = Ok s')))"
proof -
  have A: "\<forall>c \<in> set (buildGrid cw a). atRest c" by (simp add: atRest_buildGrid)
  have B: "\<exists>k art s'.
            onComplete (morph s) = Some (CycleDone k)
            \<and> item (fontArts s) k = Some art
            \<and> toLines (morph s) = split newline art
            \<and> morphUpdate ts rnd s = Ok s'
            \<and> runCallback (CycleDone k)
                 (s\<lparr>cells := morphCells 1 rnd (morph s) (cells s),
                    morph := finished (morph s)\<rparr>) = Ok s'
            \<and> morph s' = finished (morph s)
            \<and> \<not> active (morph s')
            \<and> cells s' = buildGrid (charWidth s) art
            \<and> (\<forall>c \<in> set (cells s'). atRest c)
            \<and> \<not> isMorphing s' \<and> currentTextIndex s' = k
            \<and> pauses s' = pauses s @ [nextPause s]
            \<and> (\<forall>ts' rnd'. morphUpdate ts' rnd' s' = Ok s')"
    if r: "reachable s" and a: "active (morph s)" and p: "progressAt ts (morph s) \<ge> 1"
  proof -
    from p progressAt_le_1[of ts "morph s"] have p1: "progressAt ts (morph s) = 1" by simp
    from r a obtain k art where k: "onComplete (morph s) = Some (CycleDone k)"
      "item (fontArts s) k = Some art" "toLines (morph s) = split newline art"
      using reachable_invMorph[OF r] by (auto simp: invMorph_def)
    let ?s2 = "s\<lparr>cells := morphCells 1 rnd (morph s) (cells s), morph := finished (morph s)\<rparr>"
    obtain s3 where s3: "initCanvas (Some art) ?s2 = Ok s3" using initCanvas_Ok by blast
    note f3 = initCanvas_Some[OF s3]
    let ?s' = "scheduleCycle (s3\<lparr>currentTextIndex := k, isMorphing := False\<rparr>)"
    have rc: "runCallback (CycleDone k) ?s2 = Ok ?s'" using s3 k by simp
    have mu: "morphUpdate ts rnd s = Ok ?s'"
      using a p1 k rc by (simp add: morphUpdate_def Let_def finished_def)
    have m': "morph ?s' = finished (morph s)" using f3 by (simp add: scheduleCycle_keeps)
    then have na: "\<not> active (morph ?s')" by (simp add: finished_def)
    have c': "cells ?s' = buildGrid (charWidth s) art" using f3 by (simp add: scheduleCycle_keeps)
    have rest: "\<forall>c \<in> set (cells ?s'). atRest c" unfolding c' by (simp add: atRest_buildGrid)
    have fl: "\<not> isMorphing ?s'" "currentTextIndex ?s' = k"
      by (simp_all add: scheduleCycle_def setTimeout_def)
    have ps: "pauses ?s' = pauses s @ [nextPause s]"
      using f3 by (simp add: pauses_scheduleCycle) (simp add: pauses_def)
    have again: "\<forall>ts' rnd'. morphUpdate ts' rnd' ?s' = Ok ?s'"
      using na by (simp add: morphUpdate_inactive)
    from k rc mu m' na c' rest fl ps again show ?thesis by blast
  qed
  from A B show ?thesis by blast
qed

text \<open>The example morph started at clock 100 with duration 600: the frame at 700 completes
  it and rebuilds the grid from \<open>XY / ZW\<close>.\<close>

theorem morph_completion_witness:
  "reachable demoMorphing \<and> active (morph demoMorphing)
   \<and> progressAt 700 (morph demoMorphing) \<ge> 1
   \<and> map char (cells (stateOf (morphUpdate 700 noRandom demoMorphing))) = ''XYZW''
   \<and> \<not> active (morph (stateOf (morphUpdate 700 noRandom demoMorphing)))
   \<and> list_all atRest (cells (stateOf (morphUpdate 700 noRandom demoMorphing)))
   \<and> currentTextIndex (stateOf (morphUpdate 700 noRandom demoMorphing)) = 1"
proof -
  have p: "progressAt 700 (morph demoMorphing) \<ge> 1"
    by (simp add: progressAt_def demoMorphing_morph)
  from morph_completion[of 8 "''XY''" demoMorphing 700 noRandom] reachable_demoMorphing
    demoMorphing_fields(1) p
  obtain k art s' where *: "onComplete (morph demoMorphing) = Some (CycleDone k)"
    "item (fontArts demoMorphing) k = Some art"
    "morphUpdate 700 noRandom demoMorphing = Ok s'"
    "\<not> active (morph s')" "cells s' = buildGrid (charWidth demoMorphing) art"
    "\<forall>c \<in> set (cells s'). atRest c" "currentTextIndex s' = k"
    by blast
  from *(1) have k: "k = 1" by (simp add: demoMorphing_morph)
  with *(2) have art: "art = ''XY'' @ [newline] @ ''ZW''" by (simp add: demoMorphing_morph)
  have "map char (cells s') = ''XYZW''"
    unfolding *(5) art by (simp add: demoMorphing_morph eval_defs)
  with * k p reachable_demoMorphing demoMorphing_fields(1) show ?thesis
    by (simp add: list_all_iff)
qed

section \<open>Double arithmetic\<close>

subsection \<open>Rounding to the nearest double\<close>

lemma binade_eq:
  assumes "2 powr of_int e \<le> \<bar>x\<bar>" and "\<bar>x\<bar> < 2 powr of_int (e + 1)"
  shows "binade x = e"
proof -
  have pos: "0 < \<bar>x\<bar>"
    using assms(1) powr_gt_zero [of 2 "of_int e"] by linarith
  have "of_int e \<le> log 2 \<bar>x\<bar>"
    using assms(1) pos by (simp add: le_log_iff)
  moreover have "log 2 \<bar>x\<bar> < of_int e + 1"
    using assms(2) pos by (simp add: log_less_iff)
  ultimately show ?thesis
    unfolding binade_def by (simp add: floor_unique)
qed

lemma binade_bounds:
  assumes "x \<noteq> 0"
  shows "2 powr of_int (binade x) \<le> \<bar>x\<bar>" and "\<bar>x\<bar> < 2 powr of_int (binade x + 1)"
proof -
  have pos: "0 < \<bar>x\<bar>" using assms by simp
  have "of_int (binade x) \<le> log 2 \<bar>x\<bar>"
    unfolding binade_def by simp
  then show "2 powr of_int (binade x) \<le> \<bar>x\<bar>"
    using pos by (simp add: le_log_iff)
  have "log 2 \<bar>x\<bar> < of_int (binade x + 1)"
    unfolding binade_def by linarith
  then show "\<bar>x\<bar> < 2 powr of_int (binade x + 1)"
    using pos by (simp only: log_less_iff [of 2, simplified])
qed

lemma dbl_in_binade:
  assumes "2 powr of_int e \<le> \<bar>x\<bar>" and "\<bar>x\<bar> < 2 powr of_int (e + 1)"
  shows "dbl x = of_int (roundEven (x / 2 powr of_int (e - 52))) * 2 powr of_int (e - 52)"
proof -
  have "x \<noteq> 0"
    using assms(1) powr_gt_zero [of 2 "of_int e"] by auto
  then show ?thesis
    by (simp add: dbl_def binade_eq [OF assms])
qed

lemma roundEven_ge:
  assumes "of_int n \<le> y"
  shows "n \<le> roundEven y"
proof -
  have "n \<le> \<lfloor>y\<rfloor>" using assms by (simp add: le_floor_iff)
  then show ?thesis
    by (simp add: roundEven_def Let_def)
qed

lemma roundEven_le:
  assumes "y \<le> of_int n"
  shows "roundEven y \<le> n"
proof (cases "y = of_int n")
  case True
  then show ?thesis by (simp add: roundEven_def)
next
  case False
  then have "y < of_int n" using assms by simp
  then have "\<lfloor>y\<rfloor> < n" by (simp add: floor_less_iff)
  then have "\<lfloor>y\<rfloor> + 1 \<le> n" by simp
  then show ?thesis
    by (auto simp: roundEven_def Let_def)
qed

lemma roundEven_of_int: "roundEven (of_int n) = n"
  by (simp add: roundEven_def)

lemma roundEven_minus: "roundEven (- y) = - roundEven y"
proof (cases "y = of_int \<lfloor>y\<rfloor>")
  case True
  then obtain n :: int where "y = of_int n" by blast
  then have "- y = of_int (- n)" by simp
  then show ?thesis
    using \<open>y = of_int n\<close> by (simp only: roundEven_of_int)
next
  case False
  then have "of_int \<lfloor>y\<rfloor> < y" "y < of_int \<lfloor>y\<rfloor> + 1"
    by linarith+
  then have fl: "\<lfloor>- y\<rfloor> = - \<lfloor>y\<rfloor> - 1"
    by (intro floor_unique) (simp_all, linarith)
  show ?thesis
    unfolding roundEven_def Let_def fl
    by (auto simp: field_simps)
qed

lemma dbl_minus: "dbl (- x) = - dbl x"
  by (simp add: dbl_def binade_def roundEven_minus)

lemma dbl_zero: "dbl 0 = 0"
  by (simp add: dbl_def)

text \<open>A double at or above \<open>2 ^ e\<close> in size is a whole number of units \<open>2 ^ (e - 52)\<close>.\<close>

lemma two_powr_nat: "0 \<le> k \<Longrightarrow> (2::real) powr of_int k = of_int (2 ^ nat k)"
  by (simp add: powr_int)

lemma isDouble_multiple:
  assumes d: "isDouble d" and big: "2 powr of_int e \<le> \<bar>d\<bar>"
  shows "\<exists>n :: int. d = of_int n * 2 powr of_int (e - 52)"
proof -
  from d obtain m q :: int where m: "\<bar>m\<bar> < 2 ^ 53" and dm: "d = of_int m * 2 powr of_int q"
    unfolding isDouble_def by blast
  have "\<bar>d\<bar> = of_int \<bar>m\<bar> * 2 powr of_int q"
    by (simp add: dm abs_mult)
  also have "\<dots> < 2 ^ 53 * 2 powr of_int q"
  proof -
    have "real_of_int \<bar>m\<bar> < real_of_int (2 ^ 53)"
      using m by (simp only: of_int_less_iff)
    then show ?thesis by simp
  qed
  also have "\<dots> = 2 powr of_int (q + 53)"
    by (simp add: powr_add)
  finally have "2 powr of_int e < (2::real) powr of_int (q + 53)"
    using big by linarith
  then have "e < q + 53" by simp
  then have k: "0 \<le> q - (e - 52)" by simp
  have "(2::real) powr of_int q = 2 powr of_int (q - (e - 52)) * 2 powr of_int (e - 52)"
    by (simp add: powr_add [symmetric])
  also have "\<dots> = of_int (2 ^ nat (q - (e - 52))) * 2 powr of_int (e - 52)"
    by (simp only: two_powr_nat [OF k])
  finally have "d = of_int (m * 2 ^ nat (q - (e - 52))) * 2 powr of_int (e - 52)"
    by (simp add: dm)
  then show ?thesis by blast
qed

lemma dbl_pos_form:
  assumes "0 < x"
  shows "dbl x = of_int (roundEven (x / 2 powr of_int (binade x - 52))) * 2 powr of_int (binade x - 52)"
  using assms by (simp add: dbl_def)

lemma dbl_ge_pos:
  assumes d: "isDouble d" and dx: "d \<le> x" and x: "0 < x"
  shows "d \<le> dbl x"
proof -
  define e where "e = binade x"
  define u :: real where "u = 2 powr of_int (e - 52)"
  have u: "0 < u" by (simp add: u_def)
  have lo: "2 powr of_int e \<le> x" and hi: "x < 2 powr of_int (e + 1)"
    using binade_bounds [of x] x by (simp_all add: e_def)
  have eq: "dbl x = of_int (roundEven (x / u)) * u"
    using dbl_pos_form [OF x] by (simp add: e_def u_def)
  have pu: "2 powr of_int e = of_int (2 ^ 52) * u"
    by (simp add: u_def powr_diff)
  show ?thesis
  proof (cases "d \<le> 2 powr of_int e")
    case True
    have "of_int (2 ^ 52) * u \<le> x"
      using lo by (simp only: pu)
    then have "of_int (2 ^ 52) \<le> x / u"
      using u by (simp add: pos_le_divide_eq)
    then have "2 ^ 52 \<le> roundEven (x / u)"
      by (rule roundEven_ge)
    then have "real_of_int (2 ^ 52) \<le> real_of_int (roundEven (x / u))"
      by (simp only: of_int_le_iff)
    then have "of_int (2 ^ 52) * u \<le> dbl x"
      using u by (simp only: eq mult_le_cancel_right_pos)
    then show ?thesis using True pu by linarith
  next
    case False
    then have "2 powr of_int e \<le> \<bar>d\<bar>" by simp
    from isDouble_multiple [OF d this] obtain n :: int where n: "d = of_int n * u"
      unfolding u_def by blast
    have "of_int n \<le> x / u"
      using dx u by (simp add: n pos_le_divide_eq)
    then have "n \<le> roundEven (x / u)"
      by (rule roundEven_ge)
    then have "real_of_int n \<le> real_of_int (roundEven (x / u))"
      by (simp only: of_int_le_iff)
    then show ?thesis
      using u by (simp only: eq n mult_le_cancel_right_pos)
  qed
qed

lemma dbl_le_pos:
  assumes d: "isDouble d" and dx: "x \<le> d" and x: "0 < x"
  shows "dbl x \<le> d"
proof -
  define e where "e = binade x"
  define u :: real where "u = 2 powr of_int (e - 52)"
  have u: "0 < u" by (simp add: u_def)
  have lo: "2 powr of_int e \<le> x" and hi: "x < 2 powr of_int (e + 1)"
    using binade_bounds [of x] x by (simp_all add: e_def)
  have eq: "dbl x = of_int (roundEven (x / u)) * u"
    using dbl_pos_form [OF x] by (simp add: e_def u_def)
  have pu: "2 powr of_int (e + 1) = of_int (2 ^ 53) * u"
    by (simp add: u_def powr_diff powr_add)
  show ?thesis
  proof (cases "2 powr of_int (e + 1) \<le> d")
    case True
    have "x < of_int (2 ^ 53) * u"
      using hi by (simp only: pu)
    then have "x / u \<le> of_int (2 ^ 53)"
      using u by (simp add: pos_divide_le_eq)
    then have "roundEven (x / u) \<le> 2 ^ 53"
      by (rule roundEven_le)
    then have "real_of_int (roundEven (x / u)) \<le> real_of_int (2 ^ 53)"
      by (simp only: of_int_le_iff)
    then have "dbl x \<le> of_int (2 ^ 53) * u"
      using u by (simp only: eq mult_le_cancel_right_pos)
    then show ?thesis using True pu by linarith
  next
    case False
    have "2 powr of_int e \<le> \<bar>d\<bar>" using lo dx by linarith
    from isDouble_multiple [OF d this] obtain n :: int where n: "d = of_int n * u"
      unfolding u_def by blast
    have "x / u \<le> of_int n"
      using dx u by (simp add: n pos_divide_le_eq)
    then have "roundEven (x / u) \<le> n"
      by (rule roundEven_le)
    then have "real_of_int (roundEven (x / u)) \<le> real_of_int n"
      by (simp only: of_int_le_iff)
    then show ?thesis
      using u by (simp only: eq n mult_le_cancel_right_pos)
  qed
qed

lemma dbl_pos: "0 < x \<Longrightarrow> 0 < dbl x"
proof -
  assume x: "0 < x"
  have "isDouble (2 powr of_int (binade x))"
    unfolding isDouble_def by (intro exI [of _ 1] exI [of _ "binade x"]) simp
  moreover have "2 powr of_int (binade x) \<le> x"
    using binade_bounds(1) [of x] x by simp
  ultimately have "2 powr of_int (binade x) \<le> dbl x"
    using x by (rule dbl_ge_pos)
  then show ?thesis
    using powr_gt_zero [of 2 "of_int (binade x)"] by linarith
qed

lemma isDouble_minus: "isDouble d \<Longrightarrow> isDouble (- d)"
  unfolding isDouble_def
  by (elim exE conjE, rule_tac x = "- m" in exI, rule_tac x = q in exI) simp

lemma isDouble_zero: "isDouble 0"
  unfolding isDouble_def by (intro exI [of _ 0]) simp

text \<open>Rounding never crosses a double: a bound that is a double is kept.\<close>

lemma dbl_le:
  assumes d: "isDouble d" and dx: "x \<le> d"
  shows "dbl x \<le> d"
proof -
  consider "0 < x" | "x = 0" | "x < 0" "0 \<le> d" | "x < 0" "d < 0" by linarith
  then show ?thesis
  proof cases
    case 1
    then show ?thesis using d dx by (simp add: dbl_le_pos)
  next
    case 2
    then show ?thesis using dx by (simp add: dbl_zero)
  next
    case 3
    then have "0 < dbl (- x)" by (simp add: dbl_pos)
    then show ?thesis using 3 by (simp add: dbl_minus)
  next
    case 4
    have "- d \<le> dbl (- x)"
      using isDouble_minus [OF d] dx 4 by (intro dbl_ge_pos) simp_all
    then show ?thesis by (simp add: dbl_minus)
  qed
qed

lemma dbl_ge:
  assumes d: "isDouble d" and dx: "d \<le> x"
  shows "d \<le> dbl x"
proof -
  have "dbl (- x) \<le> - d"
    using isDouble_minus [OF d] dx by (intro dbl_le) simp_all
  then show ?thesis by (simp add: dbl_minus)
qed

lemma isDouble_dyadic:
  assumes "\<bar>m\<bar> < 2 ^ 53"
  shows "isDouble (of_int m / 2 ^ k)"
proof -
  have "(2::real) powr of_int (- int k) = 1 / 2 ^ k"
    by (simp add: powr_minus_divide powr_realpow)
  then have "real_of_int m / 2 ^ k = of_int m * 2 powr of_int (- int k)"
    by simp
  then show ?thesis
    unfolding isDouble_def using assms by blast
qed

lemma isDouble_one: "isDouble 1"
  using isDouble_dyadic [of 1 0] by simp

lemma isDouble_half: "isDouble (1 / 2)"
  using isDouble_dyadic [of 1 1] by simp

subsection \<open>The literals of the threshold formula\<close>

lemmas dbl_simps = roundEven_def Let_def powr_neg_numeral

lemma dbl_1337: "dbl (1337 / 100) = 7526640877242941 / 2 ^ 49"
  using dbl_in_binade [of 3 "1337 / 100"]
  by (simp add: dbl_simps)

lemma dbl_713: "dbl (713 / 100) = 8027666335787909 / 2 ^ 50"
  using dbl_in_binade [of 2 "713 / 100"]
  by (simp add: dbl_simps)

lemma dbl_07: "dbl (7 / 10) = 3152519739159347 / 2 ^ 52"
  using dbl_in_binade [of "-1" "7 / 10"]
  by (simp add: dbl_simps)

lemma dbl_015: "dbl (15 / 100) = 5404319552844595 / 2 ^ 55"
  using dbl_in_binade [of "-3" "15 / 100"]
  by (simp add: dbl_simps)

lemma dbl_085: "dbl (85 / 100) = 7656119366529843 / 2 ^ 53"
  using dbl_in_binade [of "-1" "85 / 100"]
  by (simp add: dbl_simps)

lemma dbl_half: "dbl (1 / 2) = 1 / 2"
  using dbl_in_binade [of "-1" "1 / 2"]
  by (simp add: dbl_simps)

lemma dbl_one: "dbl 1 = 1"
  using dbl_in_binade [of 0 1]
  by (simp add: dbl_simps)

lemma dbl_015_fixed: "dbl (5404319552844595 / 2 ^ 55) = 5404319552844595 / 2 ^ 55"
  using dbl_in_binade [of "-3" "5404319552844595 / 2 ^ 55"]
  by (simp add: dbl_simps)

lemma dbl_07_fixed: "dbl (3152519739159347 / 2 ^ 52) = 3152519739159347 / 2 ^ 52"
  using dbl_in_binade [of "-1" "3152519739159347 / 2 ^ 52"]
  by (simp add: dbl_simps)

lemma dbl_07_plus_015:
  "dbl (3152519739159347 / 2 ^ 52 + 5404319552844595 / 2 ^ 55) = 7656119366529843 / 2 ^ 53"
  using dbl_in_binade [of "-1" "3152519739159347 / 2 ^ 52 + 5404319552844595 / 2 ^ 55"]
  by (simp add: dbl_simps)

lemma isDouble_07: "isDouble (dbl (7 / 10))"
  unfolding dbl_07 using isDouble_dyadic [of 3152519739159347 52] by simp

lemma isDouble_015: "isDouble (dbl (15 / 100))"
  unfolding dbl_015 using isDouble_dyadic [of 5404319552844595 55] by simp

lemma isDouble_085: "isDouble (dbl (85 / 100))"
  unfolding dbl_085 using isDouble_dyadic [of 7656119366529843 53] by simp

text \<open>A number within \<open>2 ^ -54\<close> of 1 rounds to 1.\<close>

lemma dbl_near_one:
  assumes lo: "1 - 1 / 2 ^ 54 \<le> y" and hi: "y \<le> 1"
  shows "dbl y = 1"
proof (cases "y = 1")
  case True
  then show ?thesis by (simp add: dbl_one)
next
  case False
  then have y1: "y < 1" using hi by simp
  have "dbl y = of_int (roundEven (y / 2 powr of_int (- 1 - 52))) * 2 powr of_int (- 1 - 52)"
    using lo y1 by (intro dbl_in_binade) (simp_all add: powr_neg_numeral powr_minus)
  then have eq: "dbl y = of_int (roundEven (y * 2 ^ 53)) / 2 ^ 53"
    by (simp add: powr_neg_numeral)
  have f: "\<lfloor>y * 2 ^ 53\<rfloor> = 2 ^ 53 - 1"
    using lo y1 by (intro floor_unique) simp_all
  have d: "1 / 2 \<le> y * 2 ^ 53 - of_int (2 ^ 53 - 1)"
    using lo by simp
  have "roundEven (y * 2 ^ 53) = 2 ^ 53"
    unfolding roundEven_def Let_def f using d by simp
  then show ?thesis by (simp add: eq)
qed

subsection \<open>An enclosure of \<open>pi\<close>\<close>

text \<open>Machin's formula and the alternating series of the arctangent give \<open>pi\<close> to fifteen
  decimal places.\<close>

lemma arctan_alternating_bounds:
  assumes "0 \<le> x" and "x \<le> 1"
  shows "(\<Sum>i<2 * n. (- 1) ^ i * arctanTerm x i) \<le> arctan x"
    and "arctan x \<le> (\<Sum>i<2 * n + 1. (- 1) ^ i * arctanTerm x i)"
proof -
  have abs: "\<bar>x\<bar> \<le> 1" using assms by simp
  have z: "arctanTerm x \<longlonglongrightarrow> 0"
    using zeroseq_arctan_series [OF abs] by (simp add: arctanTerm_def [abs_def])
  have p: "0 \<le> arctanTerm x k" for k
    using assms by (simp add: arctanTerm_def)
  have m: "arctanTerm x (Suc k) \<le> arctanTerm x k" for k
  proof -
    have "x ^ (Suc k * 2 + 1) \<le> x ^ (k * 2 + 1)"
      using assms by (intro power_decreasing) simp_all
    moreover have "1 / real (Suc k * 2 + 1) \<le> 1 / real (k * 2 + 1)"
      by (simp add: field_simps)
    ultimately show ?thesis
      unfolding arctanTerm_def using assms
      by (intro mult_mono) simp_all
  qed
  have s: "arctan x = (\<Sum>k. (- 1) ^ k * arctanTerm x k)"
    using arctan_series [OF abs] by (simp add: arctanTerm_def)
  show "(\<Sum>i<2 * n. (- 1) ^ i * arctanTerm x i) \<le> arctan x"
    unfolding s by (rule summable_Leibniz'(2) [OF z p m])
  show "arctan x \<le> (\<Sum>i<2 * n + 1. (- 1) ^ i * arctanTerm x i)"
    unfolding s by (rule summable_Leibniz'(4) [OF z p m])
qed

lemma pi_machin: "pi = 16 * arctan (1 / 5) - 4 * arctan (1 / 239)"
  using machin by simp

lemma pi_lower: "3141592653589793 / 10 ^ 15 \<le> pi"
proof -
  have a: "(\<Sum>i<2 * 6. (- 1) ^ i * arctanTerm (1 / 5) i) \<le> arctan (1 / 5)"
    by (rule arctan_alternating_bounds) simp_all
  have b: "arctan (1 / 239) \<le> (\<Sum>i<2 * 2 + 1. (- 1) ^ i * arctanTerm (1 / 239) i)"
    by (rule arctan_alternating_bounds) simp_all
  have "3141592653589793 / 10 ^ 15
      \<le> 16 * (\<Sum>i<2 * 6. (- 1) ^ i * arctanTerm (1 / 5) i)
        - 4 * (\<Sum>i<2 * 2 + 1. (- 1) ^ i * arctanTerm (1 / 239) i)"
    by (simp add: arctanTerm_def eval_nat_numeral)
  then show ?thesis
    using a b unfolding pi_machin by linarith
qed

lemma pi_upper: "pi \<le> 3141592653589794 / 10 ^ 15"
proof -
  have a: "arctan (1 / 5) \<le> (\<Sum>i<2 * 6 + 1. (- 1) ^ i * arctanTerm (1 / 5) i)"
    by (rule arctan_alternating_bounds) simp_all
  have b: "(\<Sum>i<2 * 2. (- 1) ^ i * arctanTerm (1 / 239) i) \<le> arctan (1 / 239)"
    by (rule arctan_alternating_bounds) simp_all
  have "16 * (\<Sum>i<2 * 6 + 1. (- 1) ^ i * arctanTerm (1 / 5) i)
        - 4 * (\<Sum>i<2 * 2. (- 1) ^ i * arctanTerm (1 / 239) i)
      \<le> 3141592653589794 / 10 ^ 15"
    by (simp add: arctanTerm_def eval_nat_numeral)
  then show ?thesis
    using a b unfolding pi_machin by linarith
qed

subsection \<open>The sine next to its extrema\<close>

text \<open>Within \<open>10 ^ -8\<close> of an odd multiple of \<open>pi / 2\<close> the sine is within \<open>2 ^ -54\<close> of
  1 or of \<open>-1\<close>, less than half the distance between 1 and the double below it: it rounds
  to 1 or to \<open>-1\<close>.\<close>

lemma cos_lower: "1 - e\<^sup>2 / 2 \<le> cos (e :: real)"
proof -
  have "\<bar>sin (e / 2)\<bar> \<le> \<bar>e / 2\<bar>" by (rule abs_sin_x_le_abs_x)
  then have "(sin (e / 2))\<^sup>2 \<le> (e / 2)\<^sup>2"
    by (simp only: abs_le_square_iff)
  moreover have "cos e = 1 - 2 * (sin (e / 2))\<^sup>2"
    using cos_double_sin [of "e / 2"] by simp
  ultimately show ?thesis by (simp add: power2_eq_square)
qed

lemma cos_near_zero:
  assumes "\<bar>e\<bar> \<le> 1 / 10 ^ 8"
  shows "1 - 1 / 2 ^ 54 \<le> cos (e :: real)"
proof -
  have "\<bar>e\<bar> * \<bar>e\<bar> \<le> (1 / 10 ^ 8) * (1 / 10 ^ 8)"
    using assms by (intro mult_mono) simp_all
  then have "e\<^sup>2 \<le> 1 / 10 ^ 16"
    by (simp add: power2_eq_square abs_mult_self_eq)
  then have "1 - 1 / 2 ^ 54 \<le> 1 - e\<^sup>2 / 2" by simp
  then show ?thesis using cos_lower [of e] by linarith
qed

lemma sin_shift_trough: "sin (e + real (4 * k + 3) * pi / 2) = - cos e"
proof -
  have "e + real (4 * k + 3) * pi / 2 = (e + 3 * pi / 2) + 2 * real k * pi"
    by (simp add: field_simps)
  then have "sin (e + real (4 * k + 3) * pi / 2) = sin (e + 3 * pi / 2)"
    by (simp only: sin_add cos_2npi sin_2npi) simp
  also have "e + 3 * pi / 2 = (e + pi / 2) + pi" by simp
  also have "sin ((e + pi / 2) + pi) = - cos e"
    by (simp only: sin_periodic_pi sin_add) simp
  finally show ?thesis .
qed

lemma sin_shift_peak: "sin (e + real (4 * k + 1) * pi / 2) = cos e"
proof -
  have "e + real (4 * k + 1) * pi / 2 = (e + pi / 2) + 2 * real k * pi"
    by (simp add: field_simps)
  then have "sin (e + real (4 * k + 1) * pi / 2) = sin (e + pi / 2)"
    by (simp only: sin_add cos_2npi sin_2npi) simp
  also have "\<dots> = cos e"
    by (simp add: sin_add)
  finally show ?thesis .
qed

lemma sin_near_trough:
  assumes "\<bar>x - real (4 * k + 3) * pi / 2\<bar> \<le> 1 / 10 ^ 8"
  shows "sin x \<le> - (1 - 1 / 2 ^ 54)"
proof -
  have "sin x = sin ((x - real (4 * k + 3) * pi / 2) + real (4 * k + 3) * pi / 2)" by simp
  also have "\<dots> = - cos (x - real (4 * k + 3) * pi / 2)" by (rule sin_shift_trough)
  finally show ?thesis using cos_near_zero [OF assms] by linarith
qed

lemma sin_near_peak:
  assumes "\<bar>x - real (4 * k + 1) * pi / 2\<bar> \<le> 1 / 10 ^ 8"
  shows "1 - 1 / 2 ^ 54 \<le> sin x"
proof -
  have "sin x = sin ((x - real (4 * k + 1) * pi / 2) + real (4 * k + 1) * pi / 2)" by simp
  also have "\<dots> = cos (x - real (4 * k + 1) * pi / 2)" by (rule sin_shift_peak)
  finally show ?thesis using cos_near_zero [OF assms] by linarith
qed

lemma jsSin_trough:
  assumes "\<bar>x - real (4 * k + 3) * pi / 2\<bar> \<le> 1 / 10 ^ 8"
  shows "jsSin x = - 1"
proof -
  have "1 - 1 / 2 ^ 54 \<le> - sin x" using sin_near_trough [OF assms] by simp
  moreover have "- sin x \<le> 1"
    using sin_ge_minus_one [of x] by linarith
  ultimately have "dbl (- sin x) = 1" by (rule dbl_near_one)
  then show ?thesis by (simp add: jsSin_def dbl_minus)
qed

lemma jsSin_peak:
  assumes "\<bar>x - real (4 * k + 1) * pi / 2\<bar> \<le> 1 / 10 ^ 8"
  shows "jsSin x = 1"
  unfolding jsSin_def
  using sin_near_peak [OF assms] by (intro dbl_near_one) simp_all

lemma jsSin_bounds: "- 1 \<le> jsSin x" "jsSin x \<le> 1"
proof -
  show "- 1 \<le> jsSin x"
    unfolding jsSin_def using isDouble_minus [OF isDouble_one] by (rule dbl_ge) simp
  show "jsSin x \<le> 1"
    unfolding jsSin_def using isDouble_one by (rule dbl_le) simp
qed

subsection \<open>The threshold formula\<close>

text \<open>The arithmetic applied to the sine. A sine of \<open>-1\<close> gives the double 0.15; a sine of
  1, or of the double just below 1, gives the double 0.85; a sine of 0 gives one half.\<close>

lemma wave_minus_one: "thresholdWave (- 1) = dbl (15 / 100)"
proof -
  have s1: "jsMul (- 1) (dbl (1 / 2)) = - (1 / 2)"
    by (simp add: jsMul_def dbl_half dbl_minus)
  have s2: "jsAdd (- (1 / 2)) (dbl (1 / 2)) = 0"
    by (simp add: jsAdd_def dbl_half dbl_zero)
  have s3: "jsMul 0 (dbl (7 / 10)) = 0"
    by (simp add: jsMul_def dbl_zero)
  have s4: "jsAdd 0 (dbl (15 / 100)) = dbl (15 / 100)"
    unfolding jsAdd_def dbl_015 using dbl_015_fixed by simp
  show ?thesis
    unfolding thresholdWave_def s1 s2 s3 s4 ..
qed

lemma wave_near_one:
  assumes lo: "1 - 1 / 2 ^ 53 \<le> s" and hi: "s \<le> 1"
  shows "thresholdWave s = dbl (85 / 100)"
proof -
  define a where "a = jsMul s (dbl (1 / 2))"
  have d: "isDouble (1 / 2 - 1 / 2 ^ 54)"
    using isDouble_dyadic [of "2 ^ 53 - 1" 54] by simp
  have a1: "1 / 2 - 1 / 2 ^ 54 \<le> a"
    unfolding a_def jsMul_def dbl_half using d lo by (intro dbl_ge) simp_all
  have a2: "a \<le> 1 / 2"
    unfolding a_def jsMul_def dbl_half using isDouble_half hi by (intro dbl_le) simp_all
  have s2: "jsAdd a (dbl (1 / 2)) = 1"
    unfolding jsAdd_def dbl_half using a1 a2 by (intro dbl_near_one) simp_all
  have s3: "jsMul 1 (dbl (7 / 10)) = 3152519739159347 / 2 ^ 52"
    unfolding jsMul_def dbl_07 using dbl_07_fixed by simp
  have s4: "jsAdd (3152519739159347 / 2 ^ 52) (dbl (15 / 100)) = dbl (85 / 100)"
    unfolding jsAdd_def dbl_015 dbl_085 by (rule dbl_07_plus_015)
  show ?thesis
    unfolding thresholdWave_def a_def [symmetric] s2 s3 s4 ..
qed

lemma wave_zero: "thresholdWave 0 = 1 / 2"
proof -
  have s1: "jsMul 0 (dbl (1 / 2)) = 0"
    by (simp add: jsMul_def dbl_zero)
  have s2: "jsAdd 0 (dbl (1 / 2)) = 1 / 2"
    by (simp add: jsAdd_def dbl_half)
  have s3: "jsMul (1 / 2) (dbl (7 / 10)) = 3152519739159347 / 2 ^ 53"
    unfolding jsMul_def dbl_07
    using dbl_in_binade [of "-2" "1 / 2 * (3152519739159347 / 2 ^ 52)"]
    by (simp add: dbl_simps)
  have s4: "jsAdd (3152519739159347 / 2 ^ 53) (dbl (15 / 100)) = 1 / 2"
    unfolding jsAdd_def dbl_015
    using dbl_in_binade [of "-2" "3152519739159347 / 2 ^ 53 + 5404319552844595 / 2 ^ 55"]
    by (simp add: dbl_simps)
  show ?thesis
    unfolding thresholdWave_def s1 s2 s3 s4 ..
qed

text \<open>Whatever double of \<open>[-1, 1]\<close> the sine returns, the threshold lies between the doubles
  0.15 and 0.85.\<close>

lemma wave_bounds:
  assumes "- 1 \<le> s" and "s \<le> 1"
  shows "dbl (15 / 100) \<le> thresholdWave s" and "thresholdWave s \<le> dbl (85 / 100)"
proof -
  define a where "a = jsMul s (dbl (1 / 2))"
  define b where "b = jsAdd a (dbl (1 / 2))"
  define c where "c = jsMul b (dbl (7 / 10))"
  have a1: "- (1 / 2) \<le> a"
    unfolding a_def jsMul_def dbl_half
    using isDouble_minus [OF isDouble_half] assms by (intro dbl_ge) simp_all
  have a2: "a \<le> 1 / 2"
    unfolding a_def jsMul_def dbl_half
    using isDouble_half assms by (intro dbl_le) simp_all
  have b1: "0 \<le> b"
    unfolding b_def jsAdd_def dbl_half
    using isDouble_zero a1 by (intro dbl_ge) simp_all
  have b2: "b \<le> 1"
    unfolding b_def jsAdd_def dbl_half
    using isDouble_one a2 by (intro dbl_le) simp_all
  have p07: "0 \<le> dbl (7 / 10)"
    unfolding dbl_07 by simp
  have c1: "0 \<le> c"
    unfolding c_def jsMul_def
    using isDouble_zero b1 p07 by (intro dbl_ge) simp_all
  have "b * dbl (7 / 10) \<le> 1 * dbl (7 / 10)"
    using b2 p07 by (rule mult_right_mono)
  then have c2: "c \<le> dbl (7 / 10)"
    unfolding c_def jsMul_def
    using isDouble_07 by (intro dbl_le) simp_all
  have "dbl (7 / 10) + dbl (15 / 100) \<le> dbl (85 / 100)"
    unfolding dbl_07 dbl_015 dbl_085 by simp
  then have "c + dbl (15 / 100) \<le> dbl (85 / 100)"
    using c2 by linarith
  then have t2: "jsAdd c (dbl (15 / 100)) \<le> dbl (85 / 100)"
    unfolding jsAdd_def using isDouble_085 by (intro dbl_le)
  have t1: "dbl (15 / 100) \<le> jsAdd c (dbl (15 / 100))"
    unfolding jsAdd_def using isDouble_015 c1 by (intro dbl_ge) simp_all
  show "dbl (15 / 100) \<le> thresholdWave s"
    using t1 by (simp only: thresholdWave_def a_def b_def c_def)
  show "thresholdWave s \<le> dbl (85 / 100)"
    using t2 by (simp only: thresholdWave_def a_def b_def c_def)
qed

lemma thresholdAt_closed:
  "dbl (15 / 100) \<le> thresholdAt r c" "thresholdAt r c \<le> dbl (85 / 100)"
  unfolding thresholdAt_def
  by (rule wave_bounds [OF jsSin_bounds])+

lemma thresholdAt_unit: "0 < thresholdAt r c \<and> thresholdAt r c \<le> 1"
  using thresholdAt_closed [of r c] unfolding dbl_015 dbl_085 by simp

text \<open>The cell at row 177, column 245670: the argument of the sine is within \<open>10 ^ -8\<close> of
  \<open>1116627 * pi / 2\<close>, where the sine is \<open>-1\<close>.\<close>

lemma trough_row: "jsMul (real (177::nat)) (dbl (1337 / 100)) = 1300991636007813 / 2 ^ 39"
  unfolding jsMul_def dbl_1337
  using dbl_in_binade [of 11 "real (177::nat) * (7526640877242941 / 2 ^ 49)"]
  by (simp add: dbl_simps)

lemma trough_col: "jsMul (real (245670::nat)) (dbl (713 / 100)) = 7523181109287321 / 2 ^ 32"
  unfolding jsMul_def dbl_713
  using dbl_in_binade [of 20 "real (245670::nat) * (8027666335787909 / 2 ^ 50)"]
  by (simp add: dbl_simps)

lemma trough_argument:
  "jsAdd (jsMul (real (177::nat)) (dbl (1337 / 100))) (jsMul (real (245670::nat)) (dbl (713 / 100)))
     = 470834069152727 / 2 ^ 28"
  unfolding trough_row trough_col jsAdd_def
  using dbl_in_binade [of 20 "1300991636007813 / 2 ^ 39 + 7523181109287321 / 2 ^ 32"]
  by (simp add: dbl_simps)

lemma trough_near:
  "\<bar>470834069152727 / 2 ^ 28 - real (4 * 279156 + 3) * pi / 2\<bar> \<le> 1 / 10 ^ 8"
  using pi_lower pi_upper by (simp add: abs_le_iff)

lemma trough_sine: "jsSin (470834069152727 / 2 ^ 28) = - 1"
  by (rule jsSin_trough [OF trough_near])

lemma thresholdAt_trough: "thresholdAt 177 245670 = dbl (15 / 100)"
  unfolding thresholdAt_def trough_argument trough_sine by (rule wave_minus_one)

text \<open>The cell at row 28579, column 28410: the argument of the sine is within \<open>10 ^ -8\<close> of
  \<open>372209 * pi / 2\<close>, where the sine is 1.\<close>

lemma peak_row: "jsMul (real (28579::nat)) (dbl (1337 / 100)) = 820556143305687 / 2 ^ 31"
  unfolding jsMul_def dbl_1337
  using dbl_in_binade [of 18 "real (28579::nat) * (7526640877242941 / 2 ^ 49)"]
  by (simp add: dbl_simps)

lemma peak_col: "jsMul (real (28410::nat)) (dbl (713 / 100)) = 3480010995479347 / 2 ^ 34"
  unfolding jsMul_def dbl_713
  using dbl_in_binade [of 17 "real (28410::nat) * (8027666335787909 / 2 ^ 50)"]
  by (simp add: dbl_simps)

lemma peak_argument:
  "jsAdd (jsMul (real (28579::nat)) (dbl (1337 / 100))) (jsMul (real (28410::nat)) (dbl (713 / 100)))
     = 2511115035481211 / 2 ^ 32"
  unfolding peak_row peak_col jsAdd_def
  using dbl_in_binade [of 19 "820556143305687 / 2 ^ 31 + 3480010995479347 / 2 ^ 34"]
  by (simp add: dbl_simps)

lemma peak_near:
  "\<bar>2511115035481211 / 2 ^ 32 - real (4 * 93052 + 1) * pi / 2\<bar> \<le> 1 / 10 ^ 8"
  using pi_lower pi_upper by (simp add: abs_le_iff)

lemma peak_sine: "jsSin (2511115035481211 / 2 ^ 32) = 1"
  by (rule jsSin_peak [OF peak_near])

lemma thresholdAt_peak: "thresholdAt 28579 28410 = dbl (85 / 100)"
  unfolding thresholdAt_def peak_argument peak_sine by (rule wave_near_one) simp_all

text \<open>The cell at row 0, column 0.\<close>

lemma thresholdAt_origin: "thresholdAt 0 0 = 1 / 2"
proof -
  have s0: "jsAdd (jsMul (real (0::nat)) (dbl (1337 / 100))) (jsMul (real (0::nat)) (dbl (713 / 100))) = 0"
    by (simp add: jsMul_def jsAdd_def dbl_zero)
  have s1: "jsSin 0 = 0"
    by (simp add: jsSin_def dbl_zero)
  show ?thesis
    unfolding thresholdAt_def s0 s1 by (rule wave_zero)
qed

section \<open>The glyphs of a morph frame\<close>






lemma nth_morphCells:
  "i < length cs \<Longrightarrow> morphCells p rnd m cs ! i = morphCell p (rnd i) m i (cs ! i)"
  by (simp add: morphCells_def nth_enumerate_eq)


lemma clamp_cases:
  "clamp x 0 1 = (if x < 0 then 0 else if x > 1 then 1 else x)"
  by (simp add: clamp_def max_def min_def)

text \<open>With a positive threshold, the three-way test of the source on \<open>min x 1\<close> decides as
  the same test on \<open>clamp x 0 1\<close>.\<close>

lemma morphCell_clamp:
  assumes "item (thresholds m) i = Some th" "0 < th"
  shows "char (morphCell (min x 1) r m i c)
           = (if clamp x 0 1 \<ge> th then toChar m c
              else if th * (3 / 10) < clamp x 0 1 then glitchChar r
              else fromChar m i)"
proof -
  have "min x 1 \<ge> th \<longleftrightarrow> clamp x 0 1 \<ge> th" using assms(2)
    by (auto simp: clamp_cases min_def)
  moreover have "th * (3 / 10) < min x 1 \<longleftrightarrow> th * (3 / 10) < clamp x 0 1" using assms(2)
    by (auto simp: clamp_cases min_def)
  ultimately show ?thesis using assms(1) by (simp add: morphCell_def)
qed

lemma morph_glyph_rule:
  assumes r: "reachable s" and a: "active (morph s)" and i: "i < length (cells s)"
  shows "thresholds (morph s) ! i = thresholdAt (row (cells s ! i)) (col (cells s ! i))"
    and "char (morphCells (progressAt ts (morph s)) rnd (morph s) (cells s) ! i)
           = (if clamp ((ts - startTime (morph s)) / duration (morph s)) 0 1
                  \<ge> thresholdAt (row (cells s ! i)) (col (cells s ! i))
              then toChar (morph s) (cells s ! i)
              else if thresholdAt (row (cells s ! i)) (col (cells s ! i)) * (3 / 10)
                        < clamp ((ts - startTime (morph s)) / duration (morph s)) 0 1
              then glitchChar (rnd i)
              else char (fromSnap (morph s) ! i))"
proof -
  let ?m = "morph s"
  let ?th = "thresholdAt (row (cells s ! i)) (col (cells s ! i))"
  from r a have im: "invMorph s" by (simp add: reachable_invMorph)
  with a have th: "thresholds ?m = map (\<lambda>c. thresholdAt (row c) (col c)) (cells s)"
    and fs: "length (fromSnap ?m) = length (cells s)"
    by (simp_all add: invMorph_def)
  from th i show t: "thresholds ?m ! i = ?th" by simp
  from th i have it: "item (thresholds ?m) i = Some ?th" by (simp add: item_eq)
  have pos: "0 < ?th" using thresholdAt_unit[of "row (cells s ! i)" "col (cells s ! i)"] by simp
  have fc: "fromChar ?m i = char (fromSnap ?m ! i)" using fs i by (simp add: fromChar_def item_eq)
  show "char (morphCells (progressAt ts ?m) rnd ?m (cells s) ! i)
           = (if clamp ((ts - startTime ?m) / duration ?m) 0 1 \<ge> ?th
              then toChar ?m (cells s ! i)
              else if ?th * (3 / 10) < clamp ((ts - startTime ?m) / duration ?m) 0 1
              then glitchChar (rnd i)
              else char (fromSnap ?m ! i))"
    using morphCell_clamp[OF it pos, of "(ts - startTime ?m) / duration ?m" "rnd i" "cells s ! i"] i fc
    by (simp add: nth_morphCells progressAt_def)
qed









lemma demoMorphing_cell0:
  "row (cells demoMorphing ! 0) = 0" "col (cells demoMorphing ! 0) = 0"
  "toChar (morph demoMorphing) (cells demoMorphing ! 0) = CHR ''X''"
  unfolding demoMorphing_def demoAttached_def
  by (simp_all add: demoHost_def fresh_def eval_defs run_defs toChar_def)



section \<open>The physics step\<close>

lemma initCanvas_mouse:
  "initCanvas a s = Ok s' \<Longrightarrow> mouseX s' = mouseX s \<and> mouseY s' = mouseY s"
  by (auto simp: initCanvas_def Let_def split: option.splits)

lemma runCallback_mouse:
  "runCallback cb s = Ok s' \<Longrightarrow> mouseX s' = mouseX s \<and> mouseY s' = mouseY s"
  by (cases cb)
     (auto simp: scheduleCycle_def setTimeout_def split: outcome.splits dest: initCanvas_mouse)

lemma morphUpdate_mouse:
  "morphUpdate ts rnd s = Ok s' \<Longrightarrow> mouseX s' = mouseX s \<and> mouseY s' = mouseY s"
  by (auto simp: morphUpdate_def Let_def split: if_splits option.splits dest: runCallback_mouse)

lemma inv_render: "inv s \<Longrightarrow> \<exists>s'. render ts rnd s = Ok s'"
proof -
  assume "inv s"
  then consider "s = fresh" | "invAttached s" by (auto simp: inv_def)
  then show ?thesis
  proof cases
    case 1
    then show ?thesis by (simp add: render_def morphUpdate_def fresh_def Let_def)
  next
    case 2
    then show ?thesis using invAttached_render by blast
  qed
qed

lemma norm_scaled:
  fixes dx dy d f :: real
  assumes "d * d = dx * dx + dy * dy" "0 < d" "0 \<le> f"
  shows "sqrt ((dx / d * f) * (dx / d * f) + (dy / d * f) * (dy / d * f)) = f"
proof -
  have "(dx / d * f) * (dx / d * f) + (dy / d * f) * (dy / d * f)
          = (dx * dx + dy * dy) / (d * d) * (f * f)"
    by (simp add: field_simps add_divide_distrib)
  also have "\<dots> = f * f" using assms(2) by (simp add: assms(1)[symmetric])
  finally show ?thesis using assms(3) by simp
qed

lemma impulse_norm:
  fixes dx dy f :: real
  assumes "0 < sqrt (dx * dx + dy * dy)" "0 \<le> f"
  shows "sqrt ((dx / sqrt (dx * dx + dy * dy) * f) * (dx / sqrt (dx * dx + dy * dy) * f)
             + (dy / sqrt (dx * dx + dy * dy) * f) * (dy / sqrt (dx * dx + dy * dy) * f)) = f"
  by (rule norm_scaled) (use assms in simp_all)

lemma impulse_magnitude:
  fixes dx dy dist force :: real
  assumes "dist = sqrt (dx * dx + dy * dy)" "near \<longrightarrow> 0 < dist" "0 \<le> force"
    "\<not> near \<longrightarrow> force = 0"
  shows "sqrt ((if near then dx / dist * force else 0) * (if near then dx / dist * force else 0)
             + (if near then dy / dist * force else 0) * (if near then dy / dist * force else 0))
         = force"
proof (cases near)
  case True
  with assms(2) have "0 < sqrt (dx * dx + dy * dy)" by (simp add: assms(1))
  from impulse_norm[OF this assms(3)] show ?thesis by (simp only: if_P[OF True] assms(1))
next
  case False
  with assms(4) show ?thesis by simp
qed

lemma sqrt_25: "sqrt 25 = 5"
  by (rule real_sqrt_unique) simp_all

text \<open>
  Claim C3, with the arithmetic read over the reals. For a cell \<open>c\<close> and the pointer at
  \<open>(mx, my)\<close>, let \<open>(dx, dy)\<close> be the displacement from the pointer to the rest position of
  \<open>c\<close> and \<open>dist\<close> its length. The physics step adds to the velocity an impulse that is zero
  unless \<open>0 < dist < REPEL_RADIUS\<close> and is otherwise \<open>(dx, dy) / dist\<close> scaled by
  \<open>REPEL_FORCE * (1 - dist / REPEL_RADIUS)\<close>: it points from the pointer to the rest position
  and its length is that force, which is \<open>REPEL_FORCE\<close> at distance 0 and 0 at the radius. Then
  the spring term \<open>SPRING_K * (rest - position)\<close> of the position before the step is added, the
  sum is multiplied by \<open>DAMPING\<close>, and the position is advanced once by the new velocity. The
  glyph, row, column and rest position stay. A frame applies this step to every cell that the
  morph update leaves behind, whether or not a morph is active, with the pointer of the state
  the frame started in; in a reachable state the frame does not throw.
\<close>

theorem physics_step_order:
  "(let dx = rx c - mx;
        dy = ry c - my;
        dist = sqrt (dx * dx + dy * dy);
        near = (0 < dist \<and> dist < REPEL_RADIUS);
        force = (if near then REPEL_FORCE * (1 - dist / REPEL_RADIUS) else 0);
        ix = (if near then dx / dist * force else 0);
        iy = (if near then dy / dist * force else 0)
    in vx (physics mx my c) = (vx c + ix + (rx c - px c) * SPRING_K) * DAMPING
       \<and> vy (physics mx my c) = (vy c + iy + (ry c - py c) * SPRING_K) * DAMPING
       \<and> px (physics mx my c) = px c + vx (physics mx my c)
       \<and> py (physics mx my c) = py c + vy (physics mx my c)
       \<and> geometry (physics mx my c) = geometry c
       \<and> char (physics mx my c) = char c
       \<and> sqrt (ix * ix + iy * iy) = force
       \<and> ix * dist = dx * force \<and> iy * dist = dy * force
       \<and> 0 \<le> force \<and> force \<le> REPEL_FORCE)
   \<and> REPEL_RADIUS = 80 \<and> DAMPING = 7 / 10 \<and> DAMPING < 1
   \<and> REPEL_FORCE * (1 - 0 / REPEL_RADIUS) = REPEL_FORCE
   \<and> REPEL_FORCE * (1 - REPEL_RADIUS / REPEL_RADIUS) = 0
   \<and> (render ts rnd s = Ok s' \<longrightarrow>
         (\<exists>s1. morphUpdate ts rnd s = Ok s1
               \<and> cells s' = map (physics (mouseX s) (mouseY s)) (cells s1)))
   \<and> (reachable s \<longrightarrow> (\<exists>s'. render ts rnd s = Ok s'))"
proof -
  let ?dx = "rx c - mx" and ?dy = "ry c - my"
  let ?dist = "sqrt (?dx * ?dx + ?dy * ?dy)"
  let ?near = "0 < ?dist \<and> ?dist < REPEL_RADIUS"
  let ?force = "if ?near then REPEL_FORCE * (1 - ?dist / REPEL_RADIUS) else 0"
  let ?ix = "if ?near then ?dx / ?dist * ?force else 0"
  let ?iy = "if ?near then ?dy / ?dist * ?force else 0"
  have v: "vx (physics mx my c) = (vx c + ?ix + (rx c - px c) * SPRING_K) * DAMPING"
          "vy (physics mx my c) = (vy c + ?iy + (ry c - py c) * SPRING_K) * DAMPING"
    by (auto simp: physics_def Let_def)
  have p: "px (physics mx my c) = px c + vx (physics mx my c)"
          "py (physics mx my c) = py c + vy (physics mx my c)"
    by (auto simp: physics_def Let_def)
  have k: "geometry (physics mx my c) = geometry c" "char (physics mx my c) = char c"
    by (auto simp: physics_def Let_def geometry_def)
  have fb: "0 \<le> ?force" "?force \<le> REPEL_FORCE"
    by (auto simp: REPEL_FORCE_def REPEL_RADIUS_def)
  have n: "sqrt (?ix * ?ix + ?iy * ?iy) = ?force"
    by (rule impulse_magnitude[of ?dist ?dx ?dy ?near ?force])
       (simp_all add: REPEL_FORCE_def REPEL_RADIUS_def)
  have d: "?ix * ?dist = ?dx * ?force" "?iy * ?dist = ?dy * ?force"
    by auto
  have cst: "REPEL_RADIUS = 80" "DAMPING = 7 / 10" "DAMPING < 1"
    "REPEL_FORCE * (1 - 0 / REPEL_RADIUS) = REPEL_FORCE"
    "REPEL_FORCE * (1 - REPEL_RADIUS / REPEL_RADIUS) = 0"
    by (simp_all add: REPEL_RADIUS_def DAMPING_def)
  have r1: "\<exists>s1. morphUpdate ts rnd s = Ok s1
               \<and> cells s' = map (physics (mouseX s) (mouseY s)) (cells s1)"
    if "render ts rnd s = Ok s'"
  proof (cases "morphUpdate ts rnd s")
    case (Ok s1)
    with that morphUpdate_mouse[OF Ok] show ?thesis by (auto simp: render_def Let_def)
  next
    case (Threw e s1)
    with that show ?thesis by (simp add: render_def)
  qed
  have r2: "\<exists>s'. render ts rnd s = Ok s'" if "reachable s"
    using that reachable_inv inv_render by blast
  from v p k n d fb cst r1 r2 show ?thesis unfolding Let_def by blast
qed

text \<open>The cell at rest at \<open>(3, 4)\<close> with the pointer at the origin is at distance 5: the force
  is \<open>45 / 16\<close>, the impulse \<open>(27 / 16, 9 / 4)\<close>, and the damped velocity
  \<open>(189 / 160, 63 / 40)\<close>. A frame on the attached example moves every cell by the step.\<close>

theorem physics_step_order_witness:
  "sqrt ((rx demoCell - 0) * (rx demoCell - 0) + (ry demoCell - 0) * (ry demoCell - 0)) = 5
   \<and> vx (physics 0 0 demoCell) = 189 / 160
   \<and> vy (physics 0 0 demoCell) = 63 / 40
   \<and> px (physics 0 0 demoCell) = 3 + 189 / 160
   \<and> py (physics 0 0 demoCell) = 4 + 63 / 40
   \<and> reachable demoAttached
   \<and> cells (stateOf (render 0 noRandom demoAttached))
       = map (physics (mouseX demoAttached) (mouseY demoAttached)) (cells demoAttached)"
proof -
  have d: "sqrt ((rx demoCell - 0) * (rx demoCell - 0) + (ry demoCell - 0) * (ry demoCell - 0)) = 5"
    by (simp add: demoCell_def sqrt_25)
  note t = physics_step_order[of demoCell 0 0 0 noRandom demoAttached]
  from t[THEN conjunct1] d
  have a: "vx (physics 0 0 demoCell) = 189 / 160" "vy (physics 0 0 demoCell) = 63 / 40"
    "px (physics 0 0 demoCell) = 3 + 189 / 160" "py (physics 0 0 demoCell) = 4 + 63 / 40"
    by (simp_all add: Let_def demoCell_def sqrt_25 REPEL_RADIUS_def REPEL_FORCE_def SPRING_K_def
        DAMPING_def)
  have mu: "morphUpdate 0 noRandom demoAttached = Ok demoAttached"
    by (simp add: morphUpdate_inactive demoAttached_fields)
  from t[THEN conjunct2, THEN conjunct2, THEN conjunct2, THEN conjunct2, THEN conjunct2,
         THEN conjunct2, THEN conjunct2, THEN mp, OF reachable_demoAttached]
  obtain s' where s': "render 0 noRandom demoAttached = Ok s'" by blast
  from physics_step_order[of demoCell 0 0 0 noRandom demoAttached s', THEN conjunct2, THEN conjunct2, THEN conjunct2,
         THEN conjunct2, THEN conjunct2, THEN conjunct2, THEN conjunct1, THEN mp, OF s'] mu
  have "cells s' = map (physics (mouseX demoAttached) (mouseY demoAttached)) (cells demoAttached)"
    by simp
  with s' a d reachable_demoAttached show ?thesis by simp
qed

section \<open>Attaching with malformed style data\<close>

lemma connected_inert:
  "artsAttr h = None \<or> artsAttr h = Some [] \<or> \<not> hasCanvas h \<Longrightarrow> connectedCallback h fresh = Ok fresh"
  by (auto simp: connectedCallback_def)

lemma connected_style:
  assumes "hasCanvas h" "artsAttr h = Some arts" "arts \<noteq> []"
    "item arts (nat \<lfloor>fontRandom h * real (length arts)\<rfloor>) = Some style"
  shows "style = [] \<longrightarrow>
           connectedCallback h fresh = Threw TypeError (fresh\<lparr>charWidth := measuredWidth h\<rparr>)"
    and "style = a # rest \<longrightarrow>
           (\<exists>s'. connectedCallback h fresh = Ok s' \<and> fontArts s' = style
                 \<and> cells s' = buildGrid (measuredWidth h) a
                 \<and> rafPending s' \<and> listening s'
                 \<and> timers s' = [(ArmFirst, INITIAL_DELAY, Pending)])"
proof -
  show "style = [] \<longrightarrow>
           connectedCallback h fresh = Threw TypeError (fresh\<lparr>charWidth := measuredWidth h\<rparr>)"
    using assms by (simp add: connectedCallback_def Let_def initCanvas_def) (simp add: fresh_def)
  show "style = a # rest \<longrightarrow>
           (\<exists>s'. connectedCallback h fresh = Ok s' \<and> fontArts s' = style
                 \<and> cells s' = buildGrid (measuredWidth h) a
                 \<and> rafPending s' \<and> listening s'
                 \<and> timers s' = [(ArmFirst, INITIAL_DELAY, Pending)])"
    using assms
    by (simp add: connectedCallback_def Let_def initCanvas_def setTimeout_def) (simp add: fresh_def)
qed

lemma random_index_in_range:
  assumes "0 \<le> r" "r < 1" "arts \<noteq> []"
  shows "\<exists>style. item arts (nat \<lfloor>r * real (length arts)\<rfloor>) = Some style"
proof -
  have "r * real (length arts) < real (length arts)" using assms by simp
  then have "\<lfloor>r * real (length arts)\<rfloor> < int (length arts)" by linarith
  moreover have "0 \<le> \<lfloor>r * real (length arts)\<rfloor>" using assms(1) by simp
  ultimately have "nat \<lfloor>r * real (length arts)\<rfloor> < length arts" by linarith
  then show ?thesis by (simp add: item_eq)
qed

text \<open>
  Claim C9, as the code has it. The style data is taken as \<^verbatim>\<open>JSON.parse\<close> returned it. With
  the attribute missing, with an empty list of styles or without a canvas,
  \<^verbatim>\<open>connectedCallback\<close> returns before any setup: the element stays as constructed, with no
  cells, nothing drawn, no frame requested, no listener and no timer, and every later event
  leaves it so. When the selected style has a first block, the setup builds the grid of that
  block, requests the first frame, attaches the listeners and requests the initial timer, and
  no handler of a reachable state throws. No count check covers a selected style with zero
  blocks: \<^verbatim>\<open>initCanvas\<close> is called with \<^verbatim>\<open>undefined\<close> and throws a \<^verbatim>\<open>TypeError\<close> before
  anything is drawn, requested or attached.
\<close>

theorem attach_guards:
  "((artsAttr h = None \<or> artsAttr h = Some [] \<or> \<not> hasCanvas h)
       \<longrightarrow> connectedCallback h fresh = Ok fresh)
   \<and> step e fresh = Ok fresh
   \<and> \<not> rafPending fresh \<and> \<not> listening fresh \<and> timers fresh = []
   \<and> cells fresh = [] \<and> drawn fresh = []
   \<and> (hasCanvas h \<and> artsAttr h = Some arts \<and> arts \<noteq> []
        \<and> 0 \<le> fontRandom h \<and> fontRandom h < 1 \<longrightarrow>
         (\<exists>style. item arts (nat \<lfloor>fontRandom h * real (length arts)\<rfloor>) = Some style
            \<and> (\<forall>a rest. style = a # rest \<longrightarrow>
                  (\<exists>s'. connectedCallback h fresh = Ok s' \<and> fontArts s' = style
                        \<and> cells s' = buildGrid (measuredWidth h) a
                        \<and> rafPending s' \<and> listening s'
                        \<and> timers s' = [(ArmFirst, INITIAL_DELAY, Pending)]))
            \<and> (style = [] \<longrightarrow>
                  connectedCallback h fresh
                    = Threw TypeError (fresh\<lparr>charWidth := measuredWidth h\<rparr>))))
   \<and> (reachable s \<longrightarrow> (\<exists>s'. step e s = Ok s'))"
proof -
  have a: "(artsAttr h = None \<or> artsAttr h = Some [] \<or> \<not> hasCanvas h)
       \<longrightarrow> connectedCallback h fresh = Ok fresh"
    using connected_inert by blast
  have b: "\<not> rafPending fresh \<and> \<not> listening fresh \<and> timers fresh = []
            \<and> cells fresh = [] \<and> drawn fresh = []"
    by (simp add: fresh_def)
  have c: "\<exists>style. item arts (nat \<lfloor>fontRandom h * real (length arts)\<rfloor>) = Some style
            \<and> (\<forall>a rest. style = a # rest \<longrightarrow>
                  (\<exists>s'. connectedCallback h fresh = Ok s' \<and> fontArts s' = style
                        \<and> cells s' = buildGrid (measuredWidth h) a
                        \<and> rafPending s' \<and> listening s'
                        \<and> timers s' = [(ArmFirst, INITIAL_DELAY, Pending)]))
            \<and> (style = [] \<longrightarrow>
                  connectedCallback h fresh
                    = Threw TypeError (fresh\<lparr>charWidth := measuredWidth h\<rparr>))"
    if h: "hasCanvas h" "artsAttr h = Some arts" "arts \<noteq> []"
      and r: "0 \<le> fontRandom h" "fontRandom h < 1"
  proof -
    from random_index_in_range[OF r h(3)] obtain style
      where st: "item arts (nat \<lfloor>fontRandom h * real (length arts)\<rfloor>) = Some style" by blast
    from connected_style[OF h st] st show ?thesis by blast
  qed
  have d: "reachable s \<longrightarrow> (\<exists>s'. step e s = Ok s')"
    using reachable_never_throws by blast
  from a step_fresh[of e] b c d show ?thesis by blast
qed

text \<open>Without the attribute the attach returns the element as constructed; the example host
  attaches, shows \<open>AB / CD\<close>, and its first timer fires without an exception.\<close>

theorem attach_guards_witness:
  "connectedCallback \<lparr>artsAttr = None, hasCanvas = True, measuredWidth = 8, fontRandom = 0\<rparr> fresh
     = Ok fresh
   \<and> connectedCallback demoHost fresh = Ok demoAttached
   \<and> cells demoAttached = buildGrid 8 (''AB'' @ [newline] @ ''CD'')
   \<and> rafPending demoAttached \<and> listening demoAttached
   \<and> reachable demoAttached
   \<and> step (TimerFires 1 0) demoAttached = Ok (stateOf (step (TimerFires 1 0) demoAttached))"
proof -
  note t = attach_guards[of "\<lparr>artsAttr = None, hasCanvas = True, measuredWidth = 8, fontRandom = 0\<rparr>"
      MouseEnter]
  from t[THEN conjunct1] have a: "connectedCallback
      \<lparr>artsAttr = None, hasCanvas = True, measuredWidth = 8, fontRandom = 0\<rparr> fresh = Ok fresh"
    by simp
  note u = attach_guards[of demoHost "TimerFires 1 0"
      "[[''AB'' @ [newline] @ ''CD'', ''XY'' @ [newline] @ ''ZW'']]" demoAttached]
  note u4 = u[THEN conjunct2, THEN conjunct2, THEN conjunct2, THEN conjunct2, THEN conjunct2,
      THEN conjunct2, THEN conjunct2]
  from u4[THEN conjunct1]
  have "\<exists>s'. connectedCallback demoHost fresh = Ok s'
          \<and> cells s' = buildGrid 8 (''AB'' @ [newline] @ ''CD'') \<and> rafPending s' \<and> listening s'"
    by (auto simp: demoHost_def)
  then have b: "cells demoAttached = buildGrid 8 (''AB'' @ [newline] @ ''CD'')"
    "rafPending demoAttached" "listening demoAttached"
    using demo_connected by auto
  from u4[THEN conjunct2, THEN mp, OF reachable_demoAttached]
  have c: "step (TimerFires 1 0) demoAttached = Ok (stateOf (step (TimerFires 1 0) demoAttached))"
    by auto
  from a b c demo_connected reachable_demoAttached show ?thesis by simp
qed

text \<open>One style with zero blocks: the attach throws.\<close>

theorem empty_style_counterexample:
  "connectedCallback \<lparr>artsAttr = Some [[]], hasCanvas = True, measuredWidth = 8, fontRandom = 0\<rparr>
     fresh = Threw TypeError (fresh\<lparr>charWidth := 8\<rparr>)"
  by (simp add: connectedCallback_def Let_def initCanvas_def) (simp add: fresh_def)

section \<open>Hovering and the cycle timers\<close>

text \<open>
  Claim C7 says that entering hover cancels any pending cycle timer. The handler of
  \<^verbatim>\<open>mouseenter\<close> clears the one handle stored in \<^verbatim>\<open>cycleTimer\<close>. When the pointer enters
  and leaves the canvas before the initial timer has fired, \<^verbatim>\<open>mouseleave\<close> requests a cycle
  timer (handle 2) and the initial timer requests another (handle 3) and overwrites the stored
  handle; the next \<^verbatim>\<open>mouseenter\<close> clears handle 3 only, and the element hovers with the
  cycle timer of handle 2 still pending.
\<close>

theorem hover_leaves_cycle_timer_pending:
  "hovering demoHoverLeak \<and> isPending 2 demoHoverLeak
   \<and> fst (timers demoHoverLeak ! (2 - 1)) = Tick
   \<and> cycleTimer demoHoverLeak = 3"
  unfolding demoHoverLeak_def demoAttached_def
  by (simp add: demoHost_def fresh_def eval_defs run_defs)

lemma startMorph_active_iff:
  "active (morph (stateOf (startMorph a cb now s))) \<longleftrightarrow> active (morph s) \<or> a \<noteq> None"
  by (auto simp: startMorph_def Let_def split: option.splits)

lemma hovering_no_start:
  assumes "hovering s" "\<not> active (morph s)"
  shows "\<not> active (morph (stateOf (step e s)))"
proof (cases e)
  case (Frame ts rnd)
  then show ?thesis using assms
    by (simp add: render_def morphUpdate_def Let_def)
next
  case (TimerFires h now)
  show ?thesis
  proof (cases "fst (timers s ! (h - 1))")
    case ArmFirst
    then show ?thesis using TimerFires assms by (simp add: scheduleCycle_keeps setStatus_keeps)
  next
    case Tick
    then show ?thesis using TimerFires assms by (simp add: cycle_def setStatus_keeps)
  qed
next
  case MouseEnter
  then show ?thesis using assms by (simp add: mouseenter_def clearTimeout_def setStatus_keeps)
next
  case (MouseMove x y)
  then show ?thesis using assms by simp
next
  case MouseLeave
  then show ?thesis using assms by (simp add: mouseleave_def Let_def scheduleCycle_keeps)
next
  case Disconnect
  then show ?thesis using assms
    by (simp add: disconnectedCallback_def clearTimeout_def setStatus_keeps)
qed

lemma isPending_setTimeout:
  "isPending (fst (setTimeout a d s)) (snd (setTimeout a d s))"
  by (simp add: setTimeout_def isPending_iff nth_append)

lemma mouseleave_rearms:
  assumes "\<not> isMorphing s"
  shows "\<not> hovering (mouseleave s)" "isPending (cycleTimer (mouseleave s)) (mouseleave s)"
    "requests (mouseleave s) = requests s @ [(Tick, nextPause s)]"
  using assms
  by (simp_all add: mouseleave_def Let_def scheduleCycle_def setTimeout_def isPending_iff
      nth_append requests_def)

lemma mouseenter_clears:
  "hovering (mouseenter s)" "\<not> isPending (cycleTimer s) (mouseenter s)"
  "cycleTimer (mouseenter s) = cycleTimer s" "morph (mouseenter s) = morph s"
  "cells (mouseenter s) = cells s"
  by (auto simp: mouseenter_def clearTimeout_def setStatus_def isPending_iff)

text \<open>
  What does hold of hovering. \<^verbatim>\<open>cycle\<close> does nothing while the hovering flag is set, so no
  event starts a morph in a hovering state. Entering hover sets the flag and clears the
  timer whose handle is stored; entering and leaving leave the morph record and the cells as
  they are, so a morph in flight goes on. Leaving hover while \<^verbatim>\<open>isMorphing\<close> is unset clears
  the flag and requests a cycle timer with the current pause at once.
\<close>

theorem hover_gate:
  "(hovering s \<longrightarrow> cycle now s = Ok s)
   \<and> (hovering s \<and> \<not> active (morph s) \<longrightarrow> \<not> active (morph (stateOf (step e s))))
   \<and> hovering (mouseenter s) \<and> \<not> isPending (cycleTimer s) (mouseenter s)
   \<and> morph (mouseenter s) = morph s \<and> cells (mouseenter s) = cells s
   \<and> morph (mouseleave s) = morph s \<and> cells (mouseleave s) = cells s
   \<and> (\<not> isMorphing s \<longrightarrow>
         \<not> hovering (mouseleave s)
         \<and> isPending (cycleTimer (mouseleave s)) (mouseleave s)
         \<and> requests (mouseleave s) = requests s @ [(Tick, nextPause s)])"
proof -
  have a: "hovering s \<longrightarrow> cycle now s = Ok s" by (simp add: cycle_def)
  have b: "morph (mouseleave s) = morph s" "cells (mouseleave s) = cells s"
    by (simp_all add: mouseleave_def Let_def scheduleCycle_keeps)
  from a b hovering_no_start[of s e] mouseenter_clears[of s] mouseleave_rearms[of s]
  show ?thesis by blast
qed

text \<open>In the hovering state of the example the pending cycle timer of handle 2 fires without
  starting a morph; leaving hover on the attached example leaves a pending cycle timer.\<close>

theorem hover_gate_witness:
  "hovering demoHoverLeak \<and> \<not> active (morph demoHoverLeak) \<and> isPending 2 demoHoverLeak
   \<and> cycle 0 demoHoverLeak = Ok demoHoverLeak
   \<and> \<not> active (morph (stateOf (step (TimerFires 2 0) demoHoverLeak)))
   \<and> \<not> isMorphing demoAttached
   \<and> isPending (cycleTimer (mouseleave demoAttached)) (mouseleave demoAttached)"
proof -
  have f: "hovering demoHoverLeak" "\<not> active (morph demoHoverLeak)" "isPending 2 demoHoverLeak"
    unfolding demoHoverLeak_def demoAttached_def
    by (simp_all add: demoHost_def fresh_def eval_defs run_defs)
  note t = hover_gate[of demoHoverLeak 0 "TimerFires 2 0"]
  from t[THEN conjunct1] f(1) have a: "cycle 0 demoHoverLeak = Ok demoHoverLeak" by simp
  from t[THEN conjunct2, THEN conjunct1] f
  have b: "\<not> active (morph (stateOf (step (TimerFires 2 0) demoHoverLeak)))" by simp
  note u = hover_gate[of demoAttached 0 MouseEnter]
  from u[THEN conjunct2, THEN conjunct2, THEN conjunct2, THEN conjunct2, THEN conjunct2,
         THEN conjunct2, THEN conjunct2, THEN conjunct2] demoAttached_fields(4)
  have c: "isPending (cycleTimer (mouseleave demoAttached)) (mouseleave demoAttached)" by simp
  from f a b c demoAttached_fields(4) show ?thesis by simp
qed

section \<open>The thresholds of a morph\<close>

lemma startMorph_thresholds:
  "\<not> active (morph s) \<Longrightarrow>
     startMorph (Some a) cb now s
       = Ok (s\<lparr>morph := \<lparr>active = True, startTime = now, duration = duration (morph s),
                          fromSnap = cells s, toLines = split newline a,
                          thresholds = map (\<lambda>c. thresholdAt (row c) (col c)) (cells s),
                          onComplete = Some cb\<rparr>\<rparr>)"
  by (simp add: startMorph_def Let_def)

lemma thresholds_rows_cols:
  assumes "map row cs = map row cs'" "map col cs = map col cs'"
  shows "map (\<lambda>c. thresholdAt (row c) (col c)) cs = map (\<lambda>c. thresholdAt (row c) (col c)) cs'"
proof (rule nth_equalityI)
  show l: "length (map (\<lambda>c. thresholdAt (row c) (col c)) cs)
             = length (map (\<lambda>c. thresholdAt (row c) (col c)) cs')"
    using assms(1) map_eq_imp_length_eq by fastforce
  fix i assume "i < length (map (\<lambda>c. thresholdAt (row c) (col c)) cs)"
  then have i: "i < length cs" "i < length cs'" using l by simp_all
  from assms i have "row (cs ! i) = row (cs' ! i)" "col (cs ! i) = col (cs' ! i)"
    by (metis nth_map)+
  with i show "map (\<lambda>c. thresholdAt (row c) (col c)) cs ! i
                 = map (\<lambda>c. thresholdAt (row c) (col c)) cs' ! i"
    by simp
qed

lemma buildGrid_rows_cols:
  "map row (buildGrid cw art) = map row (buildGrid cw' art)"
  "map col (buildGrid cw art) = map col (buildGrid cw' art)"
proof -
  have r: "map row cs = map fst (map (\<lambda>c. (row c, col c, char c)) cs)" for cs :: "cell list"
    by (simp add: comp_def)
  have c: "map col cs = map (fst \<circ> snd) (map (\<lambda>c. (row c, col c, char c)) cs)"
    for cs :: "cell list"
    by (simp add: comp_def)
  show "map row (buildGrid cw art) = map row (buildGrid cw' art)"
    by (simp only: r buildGrid_listing)
  show "map col (buildGrid cw art) = map col (buildGrid cw' art)"
    by (simp only: c buildGrid_listing)
qed

text \<open>The true sine at the two arguments, before rounding.\<close>

lemma trough_true_sine: "sin (470834069152727 / 2 ^ 28 :: real) \<le> - (1 - 1 / 2 ^ 54)"
  by (rule sin_near_trough [OF trough_near])

lemma peak_true_sine: "1 - 1 / 2 ^ 54 \<le> sin (2511115035481211 / 2 ^ 32 :: real)"
  by (rule sin_near_peak [OF peak_near])

lemma startMorph_farCell:
  "thresholds (morph (stateOf (startMorph (Some ''Q'') (CycleDone 0) 5
                                  (demoAttached\<lparr>cells := [farCell]\<rparr>))))
     = [thresholdAt 177 245670]"
  using demoAttached_fields(6) by (simp add: startMorph_thresholds farCell_def demoCell_def)

text \<open>
  Claim C8, as the source computes it. \<^verbatim>\<open>startMorph\<close> on a state without an active morph
  stores, for the cells in their order, the thresholds given by the fixed formula
  \<open>(sin (row * 13.37 + col * 7.13) * 0.5 + 0.5) * 0.7 + 0.15\<close> of the row and column of each
  cell, every literal and every operation rounded to a double. Two morphs started on cells
  with the same rows and columns store the same threshold array, whatever their targets,
  clocks and callbacks, and two grids built from the same block have the same thresholds.
  Every threshold lies in the closed interval between the doubles 0.15 and 0.85, and so does
  every threshold stored in a reachable state with an active morph; this holds for whatever
  value of \<open>[-1, 1]\<close> the sine returns. The interval is closed, not open: a sine of \<open>-1\<close>
  gives the double 0.15 itself, a sine of 1 or of the double next below 1 gives the double
  0.85 itself, and both happen: at row 177, column 245670 the threshold is the double 0.15,
  at row 28579, column 28410 it is the double 0.85.
\<close>

theorem thresholds_deterministic_in_closed_interval:
  "(\<not> active (morph s) \<longrightarrow>
      (\<exists>s'. startMorph (Some a) cb now s = Ok s'
            \<and> thresholds (morph s') = map (\<lambda>c. thresholdAt (row c) (col c)) (cells s)))
   \<and> thresholdAt r c
       = jsAdd (jsMul (jsAdd (jsMul (jsSin (jsAdd (jsMul (real r) (dbl (1337 / 100)))
                                                  (jsMul (real c) (dbl (713 / 100)))))
                                    (dbl (1 / 2)))
                             (dbl (1 / 2)))
                      (dbl (7 / 10)))
               (dbl (15 / 100))
   \<and> (\<not> active (morph s1) \<and> \<not> active (morph s2)
        \<and> map row (cells s1) = map row (cells s2) \<and> map col (cells s1) = map col (cells s2)
        \<longrightarrow> thresholds (morph (stateOf (startMorph (Some a1) cb1 now1 s1)))
             = thresholds (morph (stateOf (startMorph (Some a2) cb2 now2 s2))))
   \<and> map (\<lambda>c. thresholdAt (row c) (col c)) (buildGrid cw art)
       = map (\<lambda>c. thresholdAt (row c) (col c)) (buildGrid cw' art)
   \<and> dbl (15 / 100) \<le> thresholdAt r c \<and> thresholdAt r c \<le> dbl (85 / 100)
   \<and> (reachable s \<and> active (morph s)
        \<longrightarrow> (\<forall>t \<in> set (thresholds (morph s)). dbl (15 / 100) \<le> t \<and> t \<le> dbl (85 / 100)))
   \<and> (- 1 \<le> x \<and> x \<le> 1
        \<longrightarrow> dbl (15 / 100) \<le> thresholdWave x \<and> thresholdWave x \<le> dbl (85 / 100))
   \<and> (1 - 1 / 2 ^ 53 \<le> x \<and> x \<le> 1 \<longrightarrow> thresholdWave x = dbl (85 / 100))
   \<and> thresholdWave (- 1) = dbl (15 / 100)
   \<and> thresholdAt 177 245670 = dbl (15 / 100)
   \<and> thresholdAt 28579 28410 = dbl (85 / 100)
   \<and> dbl (15 / 100) = 5404319552844595 / 2 ^ 55
   \<and> dbl (85 / 100) = 7656119366529843 / 2 ^ 53"
proof -
  have a: "\<exists>s'. startMorph (Some a) cb now s = Ok s'
            \<and> thresholds (morph s') = map (\<lambda>c. thresholdAt (row c) (col c)) (cells s)"
    if "\<not> active (morph s)"
    using startMorph_thresholds[OF that, of a cb now] by simp
  have f: "thresholdAt r c
       = jsAdd (jsMul (jsAdd (jsMul (jsSin (jsAdd (jsMul (real r) (dbl (1337 / 100)))
                                                  (jsMul (real c) (dbl (713 / 100)))))
                                    (dbl (1 / 2)))
                             (dbl (1 / 2)))
                      (dbl (7 / 10)))
               (dbl (15 / 100))"
    by (simp only: thresholdAt_def thresholdWave_def)
  have b: "thresholds (morph (stateOf (startMorph (Some a1) cb1 now1 s1)))
             = thresholds (morph (stateOf (startMorph (Some a2) cb2 now2 s2)))"
    if "\<not> active (morph s1)" "\<not> active (morph s2)"
      "map row (cells s1) = map row (cells s2)" "map col (cells s1) = map col (cells s2)"
    using that thresholds_rows_cols[OF that(3,4)] by (simp add: startMorph_thresholds)
  have c: "map (\<lambda>c. thresholdAt (row c) (col c)) (buildGrid cw art)
       = map (\<lambda>c. thresholdAt (row c) (col c)) (buildGrid cw' art)"
    by (rule thresholds_rows_cols) (rule buildGrid_rows_cols)+
  have d: "\<forall>t \<in> set (thresholds (morph s)). dbl (15 / 100) \<le> t \<and> t \<le> dbl (85 / 100)"
    if "reachable s" "active (morph s)"
  proof -
    from that have "thresholds (morph s) = map (\<lambda>c. thresholdAt (row c) (col c)) (cells s)"
      using reachable_invMorph by (simp add: invMorph_def)
    then show ?thesis using thresholdAt_closed by auto
  qed
  have w: "dbl (15 / 100) \<le> thresholdWave x \<and> thresholdWave x \<le> dbl (85 / 100)"
    if "- 1 \<le> x" "x \<le> 1"
    using wave_bounds [OF that] by blast
  have n: "thresholdWave x = dbl (85 / 100)" if "1 - 1 / 2 ^ 53 \<le> x" "x \<le> 1"
    using that by (rule wave_near_one)
  from a f b c d w n thresholdAt_closed [of r c] wave_minus_one thresholdAt_trough
    thresholdAt_peak dbl_015 dbl_085
  show ?thesis by blast
qed

text \<open>In the example the stored threshold of the first cell is one half, the value of the
  formula at a sine of 0; a sine of 1 gives the double 0.85.\<close>

theorem thresholds_deterministic_in_closed_interval_witness:
  "reachable demoMorphing \<and> active (morph demoMorphing) \<and> \<not> active (morph demoAttached)
   \<and> thresholds (morph (stateOf (startMorph (Some ''Q'') (CycleDone 0) 5 demoAttached)))
       = map (\<lambda>c. thresholdAt (row c) (col c)) (cells demoAttached)
   \<and> thresholds (morph (stateOf (startMorph (Some ''Q'') (CycleDone 0) 5 demoAttached)))
       = thresholds (morph (stateOf (startMorph (Some ''R'') (CycleDone 1) 9 demoAttached)))
   \<and> thresholds (morph demoMorphing) ! 0 = 1 / 2
   \<and> dbl (15 / 100) \<le> thresholds (morph demoMorphing) ! 0
   \<and> thresholds (morph demoMorphing) ! 0 \<le> dbl (85 / 100)
   \<and> thresholdWave 0 = 1 / 2
   \<and> dbl (15 / 100) \<le> thresholdWave 0 \<and> thresholdWave 0 \<le> dbl (85 / 100)
   \<and> thresholdWave 1 = dbl (85 / 100)"
proof -
  note t = thresholds_deterministic_in_closed_interval
    [where s = demoAttached and a = "''Q''" and cb = "CycleDone 0" and now = 5
       and ?s1.0 = demoAttached and ?a1.0 = "''Q''" and ?cb1.0 = "CycleDone 0" and ?now1.0 = 5
       and ?s2.0 = demoAttached and ?a2.0 = "''R''" and ?cb2.0 = "CycleDone 1" and ?now2.0 = 9
       and x = 0]
  from t[THEN conjunct1] demoAttached_fields(6)
  have a: "thresholds (morph (stateOf (startMorph (Some ''Q'') (CycleDone 0) 5 demoAttached)))
       = map (\<lambda>c. thresholdAt (row c) (col c)) (cells demoAttached)"
    by auto
  from t[THEN conjunct2, THEN conjunct2, THEN conjunct1] demoAttached_fields(6)
  have b: "thresholds (morph (stateOf (startMorph (Some ''Q'') (CycleDone 0) 5 demoAttached)))
       = thresholds (morph (stateOf (startMorph (Some ''R'') (CycleDone 1) 9 demoAttached)))"
    by simp
  from t[THEN conjunct2, THEN conjunct2, THEN conjunct2, THEN conjunct2, THEN conjunct2,
      THEN conjunct2, THEN conjunct2, THEN conjunct1]
  have w0: "dbl (15 / 100) \<le> thresholdWave 0 \<and> thresholdWave 0 \<le> dbl (85 / 100)"
    by simp
  note u = thresholds_deterministic_in_closed_interval
    [where s = demoMorphing and x = 1]
  note v = u[THEN conjunct2, THEN conjunct2, THEN conjunct2, THEN conjunct2, THEN conjunct2,
      THEN conjunct2, THEN conjunct1, THEN mp,
      OF conjI[OF reachable_demoMorphing demoMorphing_fields(1)]]
  from u[THEN conjunct2, THEN conjunct2, THEN conjunct2, THEN conjunct2, THEN conjunct2,
      THEN conjunct2, THEN conjunct2, THEN conjunct2, THEN conjunct1]
  have w1: "thresholdWave 1 = dbl (85 / 100)"
    by simp
  have th0: "thresholds (morph demoMorphing) ! 0 = 1 / 2"
    using morph_glyph_rule(1)[OF reachable_demoMorphing demoMorphing_fields(1), of 0]
    by (simp add: demoMorphing_fields demoMorphing_cell0 thresholdAt_origin)
  have "thresholds (morph demoMorphing) ! 0 \<in> set (thresholds (morph demoMorphing))"
    by (rule nth_mem) (simp add: demoMorphing_fields)
  with v have "dbl (15 / 100) \<le> thresholds (morph demoMorphing) ! 0"
    "thresholds (morph demoMorphing) ! 0 \<le> dbl (85 / 100)" by blast+
  with a b w0 w1 th0 wave_zero reachable_demoMorphing demoMorphing_fields(1)
    demoAttached_fields(6)
  show ?thesis by simp
qed

text \<open>
  The interval is not open. At row 177, column 245670 the products and their sum round to
  \<open>470834069152727 / 2 ^ 28\<close>, where the sine is within \<open>2 ^ -54\<close> of \<open>-1\<close> and rounds to
  \<open>-1\<close>: the threshold is the double 0.15 itself, which is below the real number 0.15, and
  \<^verbatim>\<open>startMorph\<close> stores it for a cell at that place. At row 28579, column 28410 the
  argument is \<open>2511115035481211 / 2 ^ 32\<close>, where the sine is within \<open>2 ^ -54\<close> of 1: the
  threshold is the double 0.85 itself.
\<close>

theorem threshold_interval_ends_counterexample:
  "jsAdd (jsMul (real (177::nat)) (dbl (1337 / 100))) (jsMul (real (245670::nat)) (dbl (713 / 100)))
     = 470834069152727 / 2 ^ 28
   \<and> sin (470834069152727 / 2 ^ 28 :: real) \<le> - (1 - 1 / 2 ^ 54)
   \<and> jsSin (470834069152727 / 2 ^ 28) = - 1
   \<and> thresholdAt 177 245670 = dbl (15 / 100)
   \<and> \<not> dbl (15 / 100) < thresholdAt 177 245670
   \<and> \<not> 15 / 100 < thresholdAt 177 245670
   \<and> thresholds (morph (stateOf (startMorph (Some ''Q'') (CycleDone 0) 5
                                     (demoAttached\<lparr>cells := [farCell]\<rparr>))))
       = [dbl (15 / 100)]
   \<and> jsAdd (jsMul (real (28579::nat)) (dbl (1337 / 100))) (jsMul (real (28410::nat)) (dbl (713 / 100)))
       = 2511115035481211 / 2 ^ 32
   \<and> 1 - 1 / 2 ^ 54 \<le> sin (2511115035481211 / 2 ^ 32 :: real)
   \<and> jsSin (2511115035481211 / 2 ^ 32) = 1
   \<and> thresholdAt 28579 28410 = dbl (85 / 100)
   \<and> \<not> thresholdAt 28579 28410 < dbl (85 / 100)"
proof -
  have below: "\<not> 15 / 100 < thresholdAt 177 245670"
    unfolding thresholdAt_trough dbl_015 by simp
  have far: "thresholds (morph (stateOf (startMorph (Some ''Q'') (CycleDone 0) 5
                                     (demoAttached\<lparr>cells := [farCell]\<rparr>))))
       = [dbl (15 / 100)]"
    by (simp only: startMorph_farCell thresholdAt_trough)
  show ?thesis
    using trough_argument trough_true_sine trough_sine thresholdAt_trough below far
      peak_argument peak_true_sine peak_sine thresholdAt_peak
    by simp
qed

end
